theory Spec2Isabelle
  imports Complex_Main "HOL-Library.Char_ord" "HOL-Library.List_Lexorder"
begin

section \<open>The assembly soup plugin: data model\<close>

text \<open>
  The development follows \<^verbatim>\<open>assembly_sim/src/assembly_soup_plugin.cpp\<close>. The plugin
  computes with KDL frames, whose entries are doubles. No property proved below depends on
  the value of such an entry, so the frame expressions of the code are kept as terms: the
  constructors are the KDL operations the plugin calls, and an angle is the pair of the
  loop counter and the number of divisions that the code multiplies out. The doubles
  that the code compares and counts with are real numbers here: the comparisons and the
  increments of the loops are exact on the doubles up to \<open>2 ^ 53\<close>, and infinities and
  not-a-number are not among the values.
\<close>

datatype angle = Angle real real
  \<comment> \<open>\<open>Angle i n\<close> is the double \<^verbatim>\<open>i * (M_PI*2.0/n)\<close>\<close>

datatype rotation = RotX angle | RotY angle | RotZ angle | RotMul rotation rotation

datatype frame =
    PoseElem string
    \<comment> \<open>\<^verbatim>\<open>to_kdl\<close> of a pose element of the scene description, named by its text\<close>
  | Frame rotation
    \<comment> \<open>\<^verbatim>\<open>KDL::Frame(R, KDL::Vector(0,0,0))\<close>\<close>
  | FrameIdentity
    \<comment> \<open>\<^verbatim>\<open>KDL::Frame()\<close>\<close>
  | FrameMul frame frame

datatype model_kind = ProximityMateModel | DipoleMateModel

text \<open>The joint element of the scene description, with the fields the plugin reads or sets.\<close>

record joint_sdf =
  sdf_type :: string
  sdf_name :: string
  sdf_parent :: string
  sdf_child :: string
  sdf_pose :: "frame option"
  sdf_body :: string

record mate_model =
  mm_type :: string
  mm_kind :: model_kind
  joint_template :: joint_sdf
  symmetries :: "frame list"
  mm_params :: string

text \<open>
  A \<^verbatim>\<open>MatePointPtr\<close> is compared and used as a map key by address, so a mate point
  carries the address of its object. Its model pointer may be null (\<open>None\<close>). A mate
  model is immutable once registered and there is at most one per type name, so holding
  the model by value and comparing values agrees with comparing the pointers.
\<close>

record mate_point =
  mp_ref :: nat
  mp_model :: "mate_model option"
  mp_pose :: frame
  mp_id :: nat

record atom_model =
  am_type :: string
  female_mate_points :: "mate_point list"
  male_mate_points :: "mate_point list"

record atom =
  link :: string
  atom_model_of :: atom_model

text \<open>
  Modelled from the spec: the enumeration of mate states is declared in \<^verbatim>\<open>models.h\<close>,
  which is not among the sources. The plugin names its values \<^verbatim>\<open>NONE\<close> and
  \<^verbatim>\<open>MATED\<close>; \<open>UNMATED\<close> is the state the spec calls Detached.
\<close>

datatype mate_state = NONE | UNMATED | MATED

record joint =
  joint_desc :: joint_sdf
  attached :: bool

record mate =
  mate_model_of :: mate_model
  female :: nat
  male :: nat
  female_mate_point :: mate_point
  male_mate_point :: mate_point
  mate_joint_sdf :: "joint_sdf option"
  mate_joint :: "joint option"
  state :: mate_state
  pending_state :: mate_state

text \<open>
  A \<^verbatim>\<open>MatePtr\<close> points to a Mate that the discovery loop has constructed and stored in
  the mate table under the addresses of its two mate points, the only place where Mates
  are constructed. The pointer is therefore represented by that pair of addresses, and the
  table holds the Mate objects: a write through any copy of the pointer is a write to the
  table cell.
\<close>

type_synonym mate_ptr = "nat \<times> nat"

type_synonym mate_point_map_t = "nat \<rightharpoonup> mate"
type_synonym mate_table_t = "nat \<rightharpoonup> mate_point_map_t"

text \<open>The calls that the properties below observe, in the order in which the plugin makes them.\<close>

datatype event =
    E_Mate_ctor mate_ptr
  | E_CreateJoint mate_ptr
  | E_JointLoad mate_ptr
  | E_JointInit mate_ptr
  | E_JointDetach mate_ptr
  | E_lock
  | E_unlock
  | E_getStateUpdate mate_ptr
  | E_insert mate_ptr
  | E_publish "string list" "string list"
  | E_start_thread
  | E_try_to_lock bool
  | E_updateState mate_ptr
  | E_update mate_ptr
  | E_gzerr string
  | E_ConnectWorldUpdateBegin

datatype error = NullPointer

record soup =
  publish_active_mates :: bool
  updates_per_second :: int
  running :: bool
  updateConnection :: bool
  mate_models :: "(string \<times> mate_model option) list"
  atom_models :: "(string \<times> atom_model) list"
  atoms :: "atom list"
  mate_table :: mate_table_t
  mates_to_update :: "mate_ptr list"
  mates :: "mate_ptr list"
  allocated :: nat
  trace :: "event list"

text \<open>
  The state of the plugin and the constructor \<^verbatim>\<open>AssemblySoup::AssemblySoup\<close>. The
  members keep their names without the underscore at the end, which a name here cannot
  have. The maps of the class are
  \<^verbatim>\<open>std::map\<close>s over strings, kept as association lists in the order of their keys;
  a null \<^verbatim>\<open>MateModelPtr\<close> stored in one is \<open>None\<close>. \<open>allocated\<close> counts the
  \<^verbatim>\<open>MatePoint\<close> objects made so far and is the address of the next one.
\<close>

definition AssemblySoup :: soup where
  "AssemblySoup = \<lparr>publish_active_mates = False, updates_per_second = 10,
     running = False, updateConnection = False, mate_models = [], atom_models = [],
     atoms = [], mate_table = Map.empty, mates_to_update = [], mates = [],
     allocated = 0, trace = []\<rparr>"

definition emit :: "event list \<Rightarrow> soup \<Rightarrow> soup" where
  "emit es s = s\<lparr>trace := trace s @ es\<rparr>"

section \<open>Loading the scene description\<close>

text \<open>
  The elements of the scene description that \<^verbatim>\<open>Load\<close> reads. An attribute that the
  code tests with \<^verbatim>\<open>HasAttribute\<close> is optional; the symmetry element and the
  \<^verbatim>\<open>rot\<close> element inside it are tested for presence. The three components of
  \<^verbatim>\<open>rot\<close> are the doubles of an \<^verbatim>\<open>sdf::Vector3\<close>, the numbers of divisions
  about the axes. The number of updates per second is the integer that the text of its
  element denotes.
\<close>

record mate_model_elem =
  attr_model :: "string option"
  attr_type :: "string option"
  elem_joint :: joint_sdf
  elem_symmetry :: "(real \<times> real \<times> real) option option"
  elem_params :: string

record mate_point_elem =
  mpe_type :: string
  mpe_gender :: string
  mpe_pose :: string

record atom_model_elem =
  ame_type :: string
  ame_mate_points :: "mate_point_elem list"

record sdf_elem =
  elem_publish_active_mates :: "bool option"
  elem_updates_per_second :: "int option"
  elem_mate_models :: "mate_model_elem list"
  elem_atom_models :: "atom_model_elem list"

text \<open>\<^verbatim>\<open>m[k] = v\<close> on a \<^verbatim>\<open>std::map\<close>.\<close>

fun map_set :: "string \<Rightarrow> 'v \<Rightarrow> (string \<times> 'v) list \<Rightarrow> (string \<times> 'v) list" where
  "map_set k v [] = [(k, v)]"
| "map_set k v ((k', v') # r) =
     (if k = k' then (k, v) # r
      else if k < k' then (k, v) # (k', v') # r
      else (k', v') # map_set k v r)"

text \<open>
  The values that the counter of a loop \<^verbatim>\<open>for(double i=i0; i < n; i++)\<close> takes: none
  when \<open>n\<close> is not above \<open>i0\<close>. A double counter stops growing at \<open>2 ^ 53\<close>, so the
  list is that of the code for \<open>n\<close> up to there.
\<close>

function counter_values :: "real \<Rightarrow> real \<Rightarrow> real list" where
  "counter_values i n = (if i < n then i # counter_values (i + 1) n else [])"
  by pat_completeness auto
termination
  by (relation "measure (\<lambda>(i, n). nat \<lceil>n - i\<rceil>)") (auto simp: nat_less_iff, linarith)

declare counter_values.simps [simp del]

text \<open>The symmetry loops of lines 213 to 229.\<close>

definition rot_symmetries :: "real \<times> real \<times> real \<Rightarrow> frame list" where
  "rot_symmetries v =
     (case v of (x, y, z) \<Rightarrow>
        concat (map (\<lambda>ix.
          concat (map (\<lambda>iy.
            map (\<lambda>iz. Frame (RotMul (RotMul (RotX (Angle ix x)) (RotY (Angle iy y)))
                                      (RotZ (Angle iz z))))
              (counter_values 0 z))
          (counter_values 0 y)))
        (counter_values 0 x)))"

text \<open>
  Lines 195 to 239 for a model of the given class. Modelled from the spec:
  \<^verbatim>\<open>MateModel::load\<close> is a virtual method defined outside the sources; it reads the
  type and the model-specific parameters of the element.
\<close>

definition new_mate_model :: "model_kind \<Rightarrow> string \<Rightarrow> mate_model_elem \<Rightarrow> mate_model" where
  "new_mate_model k t e =
     (let syms = (case elem_symmetry e of
                    None \<Rightarrow> []
                  | Some None \<Rightarrow> []
                  | Some (Some v) \<Rightarrow> rot_symmetries v);
          mm = \<lparr>mm_type = t, mm_kind = k, joint_template = elem_joint e,
                symmetries = syms, mm_params = elem_params e\<rparr>
      in if length (symmetries mm) = 0 then mm\<lparr>symmetries := symmetries mm @ [FrameIdentity]\<rparr>
         else mm)"

datatype 'a flow = Return 'a | Continue 'a

text \<open>The loop over the mate model elements, lines 160 to 247.\<close>

fun load_mate_models :: "mate_model_elem list \<Rightarrow> soup \<Rightarrow> soup flow" where
  "load_mate_models [] s = Continue s"
| "load_mate_models (e # es) s =
     (case attr_model e of
        None \<Rightarrow> Return (emit [E_gzerr ''ERROR: no mate model type for mate model''] s)
      | Some model \<Rightarrow>
          (case attr_type e of
             None \<Rightarrow> Return (emit [E_gzerr ''ERROR: no mate type for mate model''] s)
           | Some mate_model_type \<Rightarrow>
               if map_of (mate_models s) mate_model_type = None then
                 if model = ''proximity'' then
                   let mm = new_mate_model ProximityMateModel mate_model_type e
                   in load_mate_models es
                        (s\<lparr>mate_models := map_set (mm_type mm) (Some mm) (mate_models s)\<rparr>)
                 else if model = ''dipole'' then
                   let mm = new_mate_model DipoleMateModel mate_model_type e
                   in load_mate_models es
                        (s\<lparr>mate_models := map_set (mm_type mm) (Some mm) (mate_models s)\<rparr>)
                 else
                   Return (emit [E_gzerr (''ERROR: '' @ [CHR 0x22] @ model @ [CHR 0x22]
                                            @ '' is not a valid model type'')] s)
               else load_mate_models es s))"

text \<open>\<^verbatim>\<open>boost::iequals\<close> on ASCII strings.\<close>

definition toupper :: "char \<Rightarrow> char" where
  "toupper c =
     (case map_of (zip ''abcdefghijklmnopqrstuvwxyz'' ''ABCDEFGHIJKLMNOPQRSTUVWXYZ'') c of
        None \<Rightarrow> c
      | Some u \<Rightarrow> u)"

definition iequals :: "string \<Rightarrow> string \<Rightarrow> bool" where
  "iequals a b = (map toupper a = map toupper b)"

text \<open>The loop over the symmetries of the model, lines 276 to 290.\<close>

fun add_female_mate_points :: "mate_model \<Rightarrow> frame \<Rightarrow> frame list \<Rightarrow> atom_model \<times> soup
    \<Rightarrow> atom_model \<times> soup" where
  "add_female_mate_points mm base_pose [] (am, s) = (am, s)"
| "add_female_mate_points mm base_pose (pose # poses) (am, s) =
     add_female_mate_points mm base_pose poses
       (am\<lparr>female_mate_points := female_mate_points am @
             [\<lparr>mp_ref = allocated s, mp_model = Some mm,
               mp_pose = FrameMul base_pose pose,
               mp_id = length (female_mate_points am) + length (male_mate_points am)\<rparr>]\<rparr>,
        s\<lparr>allocated := Suc (allocated s)\<rparr>)"

text \<open>
  \<^verbatim>\<open>mate_models_[type]\<close>, line 272: a type that is not registered is entered with a
  null pointer.
\<close>

definition mate_models_at :: "string \<Rightarrow> soup \<Rightarrow> mate_model option \<times> soup" where
  "mate_models_at t s =
     (case map_of (mate_models s) t of
        None \<Rightarrow> (None, s\<lparr>mate_models := map_set t None (mate_models s)\<rparr>)
      | Some v \<Rightarrow> (v, s))"

text \<open>The loop over the mate points of an atom model, lines 260 to 308.\<close>

fun load_mate_points :: "mate_point_elem list \<Rightarrow> atom_model \<times> soup \<Rightarrow> error + atom_model \<times> soup" where
  "load_mate_points [] ams = Inr ams"
| "load_mate_points (e # es) (am, s) =
     (let base_pose = PoseElem (mpe_pose e);
          (mate_model, s1) = mate_models_at (mpe_type e) s
      in if iequals (mpe_gender e) ''female'' then
           (case mate_model of
              None \<Rightarrow> Inl NullPointer
            | Some mm \<Rightarrow>
                load_mate_points es (add_female_mate_points mm base_pose (symmetries mm) (am, s1)))
         else if iequals (mpe_gender e) ''male'' then
           load_mate_points es
             (am\<lparr>male_mate_points := male_mate_points am @
                   [\<lparr>mp_ref = allocated s1, mp_model = mate_model, mp_pose = base_pose,
                     mp_id = length (female_mate_points am) + length (male_mate_points am)\<rparr>]\<rparr>,
              s1\<lparr>allocated := Suc (allocated s1)\<rparr>)
         else
           load_mate_points es (am, emit [E_gzerr (''Unknown gender: '' @ mpe_gender e)] s1))"

text \<open>The loop over the atom model elements, lines 252 to 315.\<close>

fun load_atom_models :: "atom_model_elem list \<Rightarrow> soup \<Rightarrow> error + soup" where
  "load_atom_models [] s = Inr s"
| "load_atom_models (e # es) s =
     (case load_mate_points (ame_mate_points e)
             (\<lparr>am_type = ame_type e, female_mate_points = [], male_mate_points = []\<rparr>, s) of
        Inl err \<Rightarrow> Inl err
      | Inr (am, s1) \<Rightarrow>
          load_atom_models es (s1\<lparr>atom_models := map_set (am_type am) am (atom_models s1)\<rparr>))"

text \<open>
  Lines 328 to 336: the first atom model, in the order of the map, whose type is found
  at position 0 of the link's name.
\<close>

fun find_atom_model :: "string \<Rightarrow> (string \<times> atom_model) list \<Rightarrow> atom_model option" where
  "find_atom_model name [] = None"
| "find_atom_model name ((k, am) # r) =
     (if take (length (am_type am)) name = am_type am then Some am
      else find_atom_model name r)"

fun load_atoms :: "string list \<Rightarrow> soup \<Rightarrow> soup" where
  "load_atoms [] s = s"
| "load_atoms (l # ls) s =
     (case find_atom_model l (atom_models s) of
        None \<Rightarrow> load_atoms ls s
      | Some am \<Rightarrow> load_atoms ls (s\<lparr>atoms := atoms s @ [\<lparr>link = l, atom_model_of = am\<rparr>]\<rparr>))"

text \<open>
  The settings read at lines 137 to 155. \<^verbatim>\<open>updates_per_second_\<close> is an
  \<^verbatim>\<open>int\<close>; a number that an \<^verbatim>\<open>int\<close> of 32 bits does not hold is not read,
  and the member keeps its value.
\<close>

definition configure :: "sdf_elem \<Rightarrow> soup \<Rightarrow> soup" where
  "configure sdf s =
     (let s1 = (case elem_publish_active_mates sdf of
                  None \<Rightarrow> s
                | Some b \<Rightarrow> s\<lparr>publish_active_mates := b\<rparr>)
      in case elem_updates_per_second sdf of
           None \<Rightarrow> s1
         | Some n \<Rightarrow>
             if - (2 ^ 31) \<le> n \<and> n < 2 ^ 31 then s1\<lparr>updates_per_second := n\<rparr> else s1)"

text \<open>
  \<^verbatim>\<open>AssemblySoup::Load\<close>, with the names of the links of the parent model. The three
  \<^verbatim>\<open>return\<close> statements of the first loop end the function with the state reached
  so far. The frame broadcasting set up at lines 124 to 135 serves the broadcasts that
  the model of the discovery cycle leaves out.
\<close>

definition Load :: "string list \<Rightarrow> sdf_elem \<Rightarrow> soup \<Rightarrow> error + soup" where
  "Load links sdf s =
     (case load_mate_models (elem_mate_models sdf) (configure sdf s) of
        Return s1 \<Rightarrow> Inr s1
      | Continue s1 \<Rightarrow>
          (case load_atom_models (elem_atom_models sdf) s1 of
             Inl err \<Rightarrow> Inl err
           | Inr s2 \<Rightarrow>
               Inr (emit [E_ConnectWorldUpdateBegin]
                      ((load_atoms links s2)\<lparr>updateConnection := True\<rparr>))))"

section \<open>Construction of a Mate\<close>

definition digit :: "nat \<Rightarrow> char" where
  "digit n = ''0123456789'' ! (n mod 10)"

function dec :: "nat \<Rightarrow> string" where
  "dec n = (if n < 10 then [digit n] else dec (n div 10) @ [digit (n mod 10)])"
  by pat_completeness auto
termination
  by (relation "measure id") auto

text \<open>The format \<^verbatim>\<open>"%s_m%0d_to_%s_m%0d"\<close> of the joint's name.\<close>

definition joint_name :: "string \<Rightarrow> nat \<Rightarrow> string \<Rightarrow> nat \<Rightarrow> string" where
  "joint_name fl fid ml mid = fl @ ''_m'' @ dec fid @ ''_to_'' @ ml @ ''_m'' @ dec mid"

text \<open>
  \<^verbatim>\<open>Mate::Mate\<close>: the joint description is the model's template with name, parent,
  child and pose set; the joint is created, loaded from it, initialised (which attaches
  it) and then detached. The stiffness attributes read at the end are doubles that no
  property below observes.
\<close>

definition Mate_joint_sdf :: "mate_model \<Rightarrow> mate_point \<Rightarrow> mate_point \<Rightarrow> atom \<Rightarrow> atom \<Rightarrow> joint_sdf" where
  "Mate_joint_sdf mm fmp mmp fa ma =
     (joint_template mm)\<lparr>
        sdf_name := joint_name (link fa) (mp_id fmp) (link ma) (mp_id mmp),
        sdf_parent := link fa,
        sdf_child := link ma,
        sdf_pose := Some (mp_pose mmp)\<rparr>"

definition Joint_Load :: "joint_sdf \<Rightarrow> joint" where
  "Joint_Load d = \<lparr>joint_desc = d, attached = False\<rparr>"

definition Joint_Init :: "joint \<Rightarrow> joint" where
  "Joint_Init j = j\<lparr>attached := True\<rparr>"

definition Joint_Detach :: "joint \<Rightarrow> joint" where
  "Joint_Detach j = j\<lparr>attached := False\<rparr>"

definition Joint_Attach :: "joint \<Rightarrow> joint" where
  "Joint_Attach j = j\<lparr>attached := True\<rparr>"

text \<open>
  Modelled from the spec: the declaration of \<^verbatim>\<open>Mate\<close> is outside the sources, and
  the initialiser list and the body of the constructor set neither \<^verbatim>\<open>state\<close> nor
  \<^verbatim>\<open>pending_state\<close>. Their first values are those of the spec, in which a Mate
  starts detached with no transition pending.
\<close>

definition Mate_ctor :: "mate_model \<Rightarrow> mate_point \<Rightarrow> mate_point \<Rightarrow> nat \<times> atom \<Rightarrow> nat \<times> atom \<Rightarrow> mate" where
  "Mate_ctor mm fmp mmp fa ma =
     (let d = Mate_joint_sdf mm fmp mmp (snd fa) (snd ma);
          j = Joint_Detach (Joint_Init (Joint_Load d))
      in \<lparr>mate_model_of = mm, female = fst fa, male = fst ma,
           female_mate_point = fmp, male_mate_point = mmp,
           mate_joint_sdf = Some d, mate_joint = Some j,
           state = UNMATED, pending_state = NONE\<rparr>)"

definition Mate_ctor_events :: "mate_ptr \<Rightarrow> event list" where
  "Mate_ctor_events p =
     [E_Mate_ctor p, E_CreateJoint p, E_JointLoad p, E_JointInit p, E_JointDetach p]"

section \<open>The discovery cycle\<close>

definition deref :: "soup \<Rightarrow> mate_ptr \<Rightarrow> mate option" where
  "deref s p = (case mate_table s (fst p) of None \<Rightarrow> None | Some row \<Rightarrow> row (snd p))"

text \<open>A write through a \<^verbatim>\<open>MatePtr\<close>: the table cell of the Mate changes.\<close>

definition assign :: "mate_ptr \<Rightarrow> mate \<Rightarrow> soup \<Rightarrow> soup" where
  "assign p m s =
     (case mate_table s (fst p) of
        None \<Rightarrow> s
      | Some row \<Rightarrow> s\<lparr>mate_table := (mate_table s)(fst p \<mapsto> row(snd p \<mapsto> m))\<rparr>)"

type_synonym candidate = "(nat \<times> atom) \<times> mate_point \<times> (nat \<times> atom) \<times> mate_point"

text \<open>
  Lines 412 to 450 of \<^verbatim>\<open>getStateUpdates\<close>: the three branches of the table lookup.
\<close>

definition find_or_create :: "mate_model \<Rightarrow> candidate \<Rightarrow> soup \<Rightarrow> mate \<times> soup" where
  "find_or_create mm c s =
     (case c of (fa, fmp, ma, mmp) \<Rightarrow>
        (case mate_table s (mp_ref fmp) of
           None \<Rightarrow>
             (let mate = Mate_ctor mm fmp mmp fa ma;
                  mate_point_map = Map.empty(mp_ref mmp \<mapsto> mate)
              in (mate, emit (Mate_ctor_events (mp_ref fmp, mp_ref mmp))
                          (s\<lparr>mate_table := (mate_table s)(mp_ref fmp \<mapsto> mate_point_map)\<rparr>)))
         | Some row \<Rightarrow>
             (case row (mp_ref mmp) of
                None \<Rightarrow>
                  (let mate = Mate_ctor mm fmp mmp fa ma
                   in (mate, emit (Mate_ctor_events (mp_ref fmp, mp_ref mmp))
                               (s\<lparr>mate_table := (mate_table s)
                                    (mp_ref fmp \<mapsto> row(mp_ref mmp \<mapsto> mate))\<rparr>)))
              | Some mate \<Rightarrow> (mate, s))))"

text \<open>
  Lines 452 to 469: the pending check, the scoped lock, the policy's decision and the
  staging. \<open>gsu\<close> is \<^verbatim>\<open>MateModel::getStateUpdate\<close>, a virtual method defined outside
  the sources that reads the poses of the simulation; it is a parameter. The lock is a
  \<^verbatim>\<open>scoped_lock\<close> declared in the loop body, released where the body ends. The
  message \<open>msg\<close> is the local \<^verbatim>\<open>mates_msg\<close> of the cycle, with its two lists of
  names. Lines 466 and 467 read the names through \<^verbatim>\<open>GetParent\<close> and
  \<^verbatim>\<open>GetChild\<close> of the joint, which belong to the simulator; the model takes them
  to return the links of the joint's description, also while the joint is detached. A
  simulator whose \<^verbatim>\<open>Detach\<close> clears the links of a joint, which the test of line
  472 allows for, gives a null pointer there instead, and line 466 dereferences it; the
  model does not follow that path. The frame broadcasts of lines 471 to 492 change
  nothing that the properties below observe and are left out.
\<close>

type_synonym mate_list = "string list \<times> string list"

definition stage :: "(mate \<Rightarrow> mate_state) \<Rightarrow> mate_ptr \<Rightarrow> mate \<Rightarrow> soup \<times> mate_list
    \<Rightarrow> error + soup \<times> mate_list" where
  "stage gsu p m sm =
     (case sm of (s, msg) \<Rightarrow>
        if pending_state m \<noteq> NONE then Inr (s, msg)
        else
          let s1 = emit [E_lock] s;
              m' = m\<lparr>pending_state := gsu m\<rparr>;
              s2 = emit [E_getStateUpdate p] (assign p m' s1)
          in if pending_state m' \<noteq> NONE then
               let s3 = emit [E_insert p]
                          (s2\<lparr>mates_to_update := List.insert p (mates_to_update s2)\<rparr>)
               in if publish_active_mates s3 \<and> pending_state m' = MATED then
                    (case mate_joint m' of
                       None \<Rightarrow> Inl NullPointer
                     | Some j \<Rightarrow>
                         Inr (emit [E_unlock] s3,
                              fst msg @ [sdf_parent (joint_desc j)],
                              snd msg @ [sdf_child (joint_desc j)]))
                  else Inr (emit [E_unlock] s3, msg)
             else Inr (emit [E_unlock] s2, msg))"

text \<open>
  The body of the innermost loop, lines 407 to 493. A female mate point whose model
  pointer is null equals only a null male model pointer, and then the constructor of
  the Mate dereferences it.
\<close>

definition scan_pair :: "(mate \<Rightarrow> mate_state) \<Rightarrow> candidate \<Rightarrow> soup \<times> mate_list
    \<Rightarrow> error + soup \<times> mate_list" where
  "scan_pair gsu c sm =
     (case c of (fa, fmp, ma, mmp) \<Rightarrow>
        if mp_model fmp \<noteq> mp_model mmp then Inr sm
        else
          (case mp_model fmp of
             None \<Rightarrow> Inl NullPointer
           | Some mate_model \<Rightarrow>
               (case find_or_create mate_model c (fst sm) of
                  (mate, s1) \<Rightarrow> stage gsu (mp_ref fmp, mp_ref mmp) mate (s1, snd sm))))"

text \<open>
  The four nested loops enumerate the candidates in this order; atoms are compared by
  address, that is by their position in \<^verbatim>\<open>atoms_\<close>.
\<close>

definition candidates :: "atom list \<Rightarrow> candidate list" where
  "candidates as =
     concat (map (\<lambda>fa.
       concat (map (\<lambda>fmp.
         concat (map (\<lambda>ma.
           if fst ma = fst fa then []
           else map (\<lambda>mmp. (fa, fmp, ma, mmp)) (male_mate_points (atom_model_of (snd ma))))
         (enumerate 0 as)))
       (female_mate_points (atom_model_of (snd fa)))))
     (enumerate 0 as))"

fun fold_err :: "('a \<Rightarrow> 's \<Rightarrow> error + 's) \<Rightarrow> 'a list \<Rightarrow> 's \<Rightarrow> error + 's" where
  "fold_err f [] s = Inr s"
| "fold_err f (x # xs) s = (case f x s of Inl e \<Rightarrow> Inl e | Inr s' \<Rightarrow> fold_err f xs s')"

definition getStateUpdates :: "(mate \<Rightarrow> mate_state) \<Rightarrow> soup \<Rightarrow> error + soup" where
  "getStateUpdates gsu s =
     (case fold_err (scan_pair gsu) (candidates (atoms s)) (s, [], []) of
        Inl e \<Rightarrow> Inl e
      | Inr (s', mates_msg) \<Rightarrow>
          Inr (if publish_active_mates s'
               then emit [E_publish (fst mates_msg) (snd mates_msg)] s' else s'))"

section \<open>The tick handler\<close>

text \<open>
  Modelled from the spec: \<^verbatim>\<open>MateModel::updateState\<close> is a virtual method defined
  outside the sources. The spec's \<open>applyTransition\<close> attaches or detaches the joint,
  sets the state of the Mate to the staged one and clears the pending state.
\<close>

definition updateState :: "mate \<Rightarrow> mate" where
  "updateState m =
     (case pending_state m of
        NONE \<Rightarrow> m
      | MATED \<Rightarrow> m\<lparr>mate_joint := map_option Joint_Attach (mate_joint m),
                    state := MATED, pending_state := NONE\<rparr>
      | UNMATED \<Rightarrow> m\<lparr>mate_joint := map_option Joint_Detach (mate_joint m),
                      state := UNMATED, pending_state := NONE\<rparr>)"

definition apply_update :: "mate_ptr \<Rightarrow> soup \<Rightarrow> soup" where
  "apply_update p s =
     (case deref s p of
        None \<Rightarrow> s
      | Some m \<Rightarrow> emit [E_updateState p] (assign p (updateState m) s))"

text \<open>
  Modelled from the spec: \<^verbatim>\<open>MateModel::update\<close>, the per-tick update, is a virtual
  method defined outside the sources; it applies continuous forces and requests no
  transition, so the model records the call.
\<close>

definition per_tick_update :: "mate_ptr \<Rightarrow> soup \<Rightarrow> soup" where
  "per_tick_update p s = emit [E_update p] s"

text \<open>
  \<^verbatim>\<open>AssemblySoup::OnUpdate\<close>. \<open>free\<close> tells whether \<^verbatim>\<open>try_to_lock\<close> finds the
  mutex free, that is whether no other thread holds it at that moment. The lock object
  lives until the function returns.
\<close>

definition OnUpdate :: "bool \<Rightarrow> soup \<Rightarrow> soup" where
  "OnUpdate free s =
     (let s1 = (if \<not> running s then emit [E_start_thread] (s\<lparr>running := True\<rparr>) else s);
          s2 = emit [E_try_to_lock free] s1;
          s3 = (if free then (fold apply_update (mates_to_update s2) s2)\<lparr>mates_to_update := []\<rparr>
                else s2);
          s4 = fold per_tick_update (mates s3) s3
      in if free then emit [E_unlock] s4 else s4)"

text \<open>
  A run of the plugin: discovery cycles, each with the policy's decisions of that moment,
  and simulation ticks, each with the outcome of its attempt to lock. The first tick
  starts the discovery thread, and \<^verbatim>\<open>stateUpdateLoop\<close> calls
  \<^verbatim>\<open>getStateUpdates\<close> only while \<^verbatim>\<open>running_\<close> holds, so a cycle before
  the first tick does not take place. When the thread calls it is a matter of the clock
  of the simulation, which the run leaves open.
\<close>

datatype step = Discover "mate \<Rightarrow> mate_state" | Tick bool

fun exec :: "step \<Rightarrow> soup \<Rightarrow> error + soup" where
  "exec (Discover gsu) s = (if running s then getStateUpdates gsu s else Inr s)"
| "exec (Tick free) s = Inr (OnUpdate free s)"

definition run :: "step list \<Rightarrow> soup \<Rightarrow> error + soup" where
  "run steps s = fold_err exec steps s"

section \<open>Observations on runs\<close>

text \<open>The events that a step adds to the trace of the state it starts in.\<close>

definition new_events :: "soup \<Rightarrow> soup \<Rightarrow> event list" where
  "new_events s s' = drop (length (trace s)) (trace s')"

text \<open>The Mates for which a trace records a call, in the order of the calls.\<close>

fun updateState_calls :: "event list \<Rightarrow> mate_ptr list" where
  "updateState_calls [] = []"
| "updateState_calls (E_updateState p # es) = p # updateState_calls es"
| "updateState_calls (e # es) = updateState_calls es"

fun update_calls :: "event list \<Rightarrow> mate_ptr list" where
  "update_calls [] = []"
| "update_calls (E_update p # es) = p # update_calls es"
| "update_calls (e # es) = update_calls es"

fun getStateUpdate_calls :: "event list \<Rightarrow> mate_ptr list" where
  "getStateUpdate_calls [] = []"
| "getStateUpdate_calls (E_getStateUpdate p # es) = p # getStateUpdate_calls es"
| "getStateUpdate_calls (e # es) = getStateUpdate_calls es"

fun insert_calls :: "event list \<Rightarrow> mate_ptr list" where
  "insert_calls [] = []"
| "insert_calls (E_insert p # es) = p # insert_calls es"
| "insert_calls (e # es) = insert_calls es"

text \<open>The lists that a trace records as published, one for each publication.\<close>

fun published :: "event list \<Rightarrow> mate_list list" where
  "published [] = []"
| "published (E_publish fs ms # es) = (fs, ms) # published es"
| "published (e # es) = published es"

text \<open>
  The use of the mutex that a trace of the discovery thread shows. \<open>lock_discipline h\<close>
  starts with the mutex held or not, and gives whether it is held at the end, or
  \<open>None\<close> when the trace locks a held mutex, unlocks a free one, or calls
  \<^verbatim>\<open>getStateUpdate\<close> or stages a Mate without holding the mutex.
\<close>

fun lock_discipline :: "bool \<Rightarrow> event list \<Rightarrow> bool option" where
  "lock_discipline h [] = Some h"
| "lock_discipline h (E_lock # es) = (if h then None else lock_discipline True es)"
| "lock_discipline h (E_unlock # es) = (if h then lock_discipline False es else None)"
| "lock_discipline h (E_getStateUpdate p # es) = (if h then lock_discipline h es else None)"
| "lock_discipline h (E_insert p # es) = (if h then lock_discipline h es else None)"
| "lock_discipline h (e # es) = lock_discipline h es"

text \<open>
  The use of the mutex as the spec words it: the computation of
  \<^verbatim>\<open>getStateUpdate\<close> runs while the mutex is free, and only the staging holds it.
\<close>

fun spec_lock_discipline :: "bool \<Rightarrow> event list \<Rightarrow> bool option" where
  "spec_lock_discipline h [] = Some h"
| "spec_lock_discipline h (E_lock # es) = (if h then None else spec_lock_discipline True es)"
| "spec_lock_discipline h (E_unlock # es) = (if h then spec_lock_discipline False es else None)"
| "spec_lock_discipline h (E_getStateUpdate p # es) =
     (if h then None else spec_lock_discipline h es)"
| "spec_lock_discipline h (E_insert p # es) = (if h then spec_lock_discipline h es else None)"
| "spec_lock_discipline h (e # es) = spec_lock_discipline h es"

text \<open>
  The store of a Mate under its pointer, whether or not the row of the female mate point
  exists; and what the evaluation of a Mate without a pending state adds to the state
  and to the message. Lemmas \<open>find_or_create_eq\<close> and \<open>stage_eq\<close> relate them to the
  code of the loop body.
\<close>

definition install :: "mate_ptr \<Rightarrow> mate \<Rightarrow> soup \<Rightarrow> soup" where
  "install p m s =
     s\<lparr>mate_table := (mate_table s)
          (fst p \<mapsto> (case mate_table s (fst p) of None \<Rightarrow> Map.empty | Some row \<Rightarrow> row)
                       (snd p \<mapsto> m))\<rparr>"

definition evaluated :: "(mate \<Rightarrow> mate_state) \<Rightarrow> mate_ptr \<Rightarrow> mate \<Rightarrow> soup \<Rightarrow> soup" where
  "evaluated gsu p m s =
     (let s2 = emit [E_lock, E_getStateUpdate p] (install p (m\<lparr>pending_state := gsu m\<rparr>) s)
      in if gsu m = NONE then emit [E_unlock] s2
         else emit [E_insert p, E_unlock]
                (s2\<lparr>mates_to_update := List.insert p (mates_to_update s2)\<rparr>))"

definition listed :: "(mate \<Rightarrow> mate_state) \<Rightarrow> mate \<Rightarrow> soup \<Rightarrow> mate_list \<Rightarrow> mate_list" where
  "listed gsu m s msg =
     (if publish_active_mates s \<and> gsu m = MATED then
        (fst msg @ [sdf_parent (joint_desc (the (mate_joint m)))],
         snd msg @ [sdf_child (joint_desc (the (mate_joint m)))])
      else msg)"

text \<open>
  The events of one evaluation: the mutex is taken, \<^verbatim>\<open>getStateUpdate\<close> is called,
  the Mate is staged if the call asks for a state, and the mutex is released where the
  loop body ends.
\<close>

definition evaluation_events :: "(mate \<Rightarrow> mate_state) \<Rightarrow> mate_ptr \<Rightarrow> mate \<Rightarrow> event list" where
  "evaluation_events gsu p m =
     [E_lock, E_getStateUpdate p] @ (if gsu m = NONE then [] else [E_insert p]) @ [E_unlock]"

text \<open>
  The events of one pass through the body of the innermost loop, for a candidate and the
  state in which the pass starts: none for an incompatible pair; none for a pair whose
  Mate has a pending state; one evaluation for a pair whose Mate has none; the
  construction of the Mate and one evaluation for a pair without a Mate.
\<close>

definition body_events :: "(mate \<Rightarrow> mate_state) \<Rightarrow> candidate \<Rightarrow> soup \<Rightarrow> event list" where
  "body_events gsu c s =
     (case c of (fa, fmp, ma, mmp) \<Rightarrow>
        if mp_model fmp \<noteq> mp_model mmp then []
        else
          (case deref s (mp_ref fmp, mp_ref mmp) of
             Some m \<Rightarrow>
               if pending_state m \<noteq> NONE then []
               else evaluation_events gsu (mp_ref fmp, mp_ref mmp) m
           | None \<Rightarrow>
               (case mp_model fmp of
                  None \<Rightarrow> []
                | Some mm \<Rightarrow>
                    Mate_ctor_events (mp_ref fmp, mp_ref mmp)
                      @ evaluation_events gsu (mp_ref fmp, mp_ref mmp)
                          (Mate_ctor mm fmp mmp fa ma))))"

text \<open>
  The events of the passes for a list of candidates, pass by pass, each pass starting in
  the state that the one before it leaves.
\<close>

fun bodies_events :: "(mate \<Rightarrow> mate_state) \<Rightarrow> candidate list \<Rightarrow> soup \<times> mate_list
    \<Rightarrow> event list list" where
  "bodies_events gsu [] sm = []"
| "bodies_events gsu (c # cs) sm =
     body_events gsu c (fst sm)
       # (case scan_pair gsu c sm of Inl e \<Rightarrow> [] | Inr sm' \<Rightarrow> bodies_events gsu cs sm')"

text \<open>
  The invariant of the mate table: the trace records one construction of a Mate, and one
  of a joint, for each pair with an entry and none for a pair without, and the joint
  pointer of every Mate in the table is set.
\<close>

definition joints_ok :: "soup \<Rightarrow> bool" where
  "joints_ok s = (\<forall>p m. deref s p = Some m \<longrightarrow> mate_joint m \<noteq> None)"

definition table_ok :: "soup \<Rightarrow> bool" where
  "table_ok s =
     (\<forall>p. count_list (trace s) (E_Mate_ctor p) = (if deref s p = None then 0 else 1)
         \<and> count_list (trace s) (E_CreateJoint p) = (if deref s p = None then 0 else 1)
         \<and> (\<forall>m. deref s p = Some m \<longrightarrow> mate_joint m \<noteq> None))"

text \<open>
  What \<^verbatim>\<open>Load\<close> leaves to the run: it writes no Mate, stages nothing, and records
  only its error messages and the connection to the update event.
\<close>

fun load_event :: "event \<Rightarrow> bool" where
  "load_event (E_gzerr msg) = True"
| "load_event E_ConnectWorldUpdateBegin = True"
| "load_event e = False"

definition untouched :: "soup \<Rightarrow> soup \<Rightarrow> bool" where
  "untouched s s' =
     (mate_table s' = mate_table s \<and> mates_to_update s' = mates_to_update s
      \<and> mates s' = mates s \<and> running s' = running s
      \<and> (\<exists>es. trace s' = trace s @ es \<and> list_all load_event es))"

text \<open>The female mate points of an atom model, and of the atoms, have a model.\<close>

definition females_ok :: "atom_model \<Rightarrow> bool" where
  "females_ok am = list_all (\<lambda>mp. mp_model mp \<noteq> None) (female_mate_points am)"

definition atoms_ok :: "soup \<Rightarrow> bool" where
  "atoms_ok s = list_all (\<lambda>a. females_ok (atom_model_of a)) (atoms s)"

definition atom_models_ok :: "soup \<Rightarrow> bool" where
  "atom_models_ok s = list_all (\<lambda>kv. females_ok (snd kv)) (atom_models s)"

text \<open>The state with which a loop of \<^verbatim>\<open>Load\<close> ends, by return or not.\<close>

definition flow_state :: "'a flow \<Rightarrow> 'a" where
  "flow_state r = (case r of Return s \<Rightarrow> s | Continue s \<Rightarrow> s)"

text \<open>What the loops over mate models and over mate points leave as it is.\<close>

definition kept :: "soup \<Rightarrow> soup \<Rightarrow> bool" where
  "kept s s' =
     (atom_models s' = atom_models s \<and> atoms s' = atoms s
      \<and> updateConnection s' = updateConnection s
      \<and> publish_active_mates s' = publish_active_mates s
      \<and> updates_per_second s' = updates_per_second s)"

text \<open>What is read off a state when a run is evaluated on the small scene.\<close>

definition observe :: "mate_ptr list \<Rightarrow> soup
    \<Rightarrow> (mate_state \<times> mate_state) option list \<times> mate_ptr list \<times> mate_ptr list \<times> bool \<times> event list" where
  "observe ps s =
     (map (\<lambda>p. map_option (\<lambda>m. (state m, pending_state m)) (deref s p)) ps,
      mates_to_update s, mates s, publish_active_mates s, trace s)"


text \<open>
  The pending state of the Mate behind a pointer, and the names of the links that its
  joint connects, as the message of the discovery cycle reads them.
\<close>

definition pending_of :: "soup \<Rightarrow> mate_ptr \<Rightarrow> mate_state" where
  "pending_of s p = (case deref s p of None \<Rightarrow> NONE | Some m \<Rightarrow> pending_state m)"

definition parent_name :: "soup \<Rightarrow> mate_ptr \<Rightarrow> string" where
  "parent_name s p =
     (case deref s p of
        None \<Rightarrow> []
      | Some m \<Rightarrow> (case mate_joint m of None \<Rightarrow> [] | Some j \<Rightarrow> sdf_parent (joint_desc j)))"

definition child_name :: "soup \<Rightarrow> mate_ptr \<Rightarrow> string" where
  "child_name s p =
     (case deref s p of
        None \<Rightarrow> []
      | Some m \<Rightarrow> (case mate_joint m of None \<Rightarrow> [] | Some j \<Rightarrow> sdf_child (joint_desc j)))"

text \<open>The Mates that a cycle staged for mating, given its events and the state it ends in.\<close>

definition staged_for_mating :: "soup \<Rightarrow> event list \<Rightarrow> mate_ptr list" where
  "staged_for_mating s evs = [p\<leftarrow>insert_calls evs. pending_of s p = MATED]"

text \<open>
  The condition under which the loop over the mate model elements makes \<^verbatim>\<open>Load\<close>
  return at an element: the model attribute or the type attribute is missing, or the
  type is not registered yet and the model is neither of the two known ones.
\<close>

definition aborts :: "mate_model_elem \<Rightarrow> soup \<Rightarrow> bool" where
  "aborts e s =
     (case attr_model e of
        None \<Rightarrow> True
      | Some model \<Rightarrow>
          (case attr_type e of
             None \<Rightarrow> True
           | Some t \<Rightarrow> map_of (mate_models s) t = None
                        \<and> model \<noteq> ''proximity'' \<and> model \<noteq> ''dipole''))"

text \<open>The female mate points that the loop over the symmetries of a model appends.\<close>

fun female_instances :: "mate_model \<Rightarrow> frame \<Rightarrow> nat \<Rightarrow> nat \<Rightarrow> frame list \<Rightarrow> mate_point list" where
  "female_instances mm b a n [] = []"
| "female_instances mm b a n (pose # poses) =
     \<lparr>mp_ref = a, mp_model = Some mm, mp_pose = FrameMul b pose, mp_id = n\<rparr>
       # female_instances mm b (Suc a) (Suc n) poses"

text \<open>The poses of the female mate points of the registered atom models, by type.\<close>

definition female_poses :: "soup \<Rightarrow> (string \<times> frame list) list" where
  "female_poses s =
     map (\<lambda>kv. (fst kv, map mp_pose (female_mate_points (snd kv)))) (atom_models s)"

text \<open>The outcome of \<^verbatim>\<open>Load\<close> as the evaluation of a scene reads it.\<close>

definition load_outcome :: "error + soup
    \<Rightarrow> (bool \<times> string list \<times> string list \<times> string list \<times> event list) option" where
  "load_outcome r =
     (case r of
        Inl e \<Rightarrow> None
      | Inr s \<Rightarrow> Some (updateConnection s, map fst (mate_models s), map fst (atom_models s),
                        map link (atoms s), trace s))"

section \<open>A small scene\<close>

text \<open>
  One mate type with two rotations about the first axis, and one atom model with a
  female and a male mate point of that type and a third point whose gender is neither;
  two links are atoms of the model, the third link is not. The two policies are the
  constant answers of \<^verbatim>\<open>getStateUpdate\<close>: a request to mate, and no change.
\<close>

definition demo_joint :: joint_sdf where
  "demo_joint = \<lparr>sdf_type = ''revolute'', sdf_name = ''mate'', sdf_parent = '''',
     sdf_child = '''', sdf_pose = None, sdf_body = ''''\<rparr>"

definition demo_scene :: sdf_elem where
  "demo_scene = \<lparr>elem_publish_active_mates = Some True, elem_updates_per_second = None,
     elem_mate_models =
       [\<lparr>attr_model = Some ''proximity'', attr_type = Some ''peg'', elem_joint = demo_joint,
         elem_symmetry = Some (Some (2, 1, 1)), elem_params = ''''\<rparr>],
     elem_atom_models =
       [\<lparr>ame_type = ''part'', ame_mate_points =
          [\<lparr>mpe_type = ''peg'', mpe_gender = ''Female'', mpe_pose = ''0 0 0 0 0 0''\<rparr>,
           \<lparr>mpe_type = ''peg'', mpe_gender = ''male'', mpe_pose = ''0 0 1 0 0 0''\<rparr>,
           \<lparr>mpe_type = ''peg'', mpe_gender = ''neuter'', mpe_pose = ''0 1 0 0 0 0''\<rparr>]\<rparr>]\<rparr>"

definition demo_links :: "string list" where
  "demo_links = [''part_1'', ''part_2'', ''table'']"

definition request_mate :: "mate \<Rightarrow> mate_state" where
  "request_mate m = MATED"

definition no_change :: "mate \<Rightarrow> mate_state" where
  "no_change m = NONE"

text \<open>
  The scene loaded, then after the first tick, after a cycle in which every pair asks to
  mate, and after the tick that follows.
\<close>

definition demo_loaded :: soup where
  "demo_loaded = projr (Load demo_links demo_scene AssemblySoup)"

definition demo_ticked :: soup where
  "demo_ticked = OnUpdate True demo_loaded"

definition demo_staged :: soup where
  "demo_staged = projr (getStateUpdates request_mate demo_ticked)"

definition demo_mated :: soup where
  "demo_mated = OnUpdate True demo_staged"

text \<open>The scene with both Mates mated, after a cycle in which nothing changes.\<close>

definition demo_quiet :: soup where
  "demo_quiet = projr (getStateUpdates no_change demo_mated)"

text \<open>
  The run that leads there: the first tick, a cycle that stages, a tick that applies, a
  second cycle.
\<close>

definition demo_steps :: "step list" where
  "demo_steps = [Tick True, Discover request_mate, Tick True, Discover no_change]"

text \<open>
  The scene with one more mate model element, whose model is not a known one; its type
  is either new or the type of the element before it.
\<close>

definition bogus_elem :: "string \<Rightarrow> mate_model_elem" where
  "bogus_elem t = \<lparr>attr_model = Some ''bogus'', attr_type = Some t, elem_joint = demo_joint,
     elem_symmetry = None, elem_params = ''''\<rparr>"

definition demo_scene_with :: "mate_model_elem \<Rightarrow> sdf_elem" where
  "demo_scene_with e = demo_scene\<lparr>elem_mate_models := elem_mate_models demo_scene @ [e]\<rparr>"

text \<open>The state in which the loop over the mate model elements reaches the added element.\<close>

definition demo_models_loaded :: soup where
  "demo_models_loaded =
     flow_state (load_mate_models (elem_mate_models demo_scene)
       (configure (demo_scene_with (bogus_elem ''hook'')) AssemblySoup))"

text \<open>The mate model element of the scene, its female mate point and an empty atom model.\<close>

definition demo_mate_elem :: mate_model_elem where
  "demo_mate_elem = hd (elem_mate_models demo_scene)"

definition demo_female :: mate_point_elem where
  "demo_female = \<lparr>mpe_type = ''peg'', mpe_gender = ''Female'', mpe_pose = ''0 0 0 0 0 0''\<rparr>"

definition demo_neuter :: mate_point_elem where
  "demo_neuter = \<lparr>mpe_type = ''peg'', mpe_gender = ''neuter'', mpe_pose = ''0 1 0 0 0 0''\<rparr>"

definition demo_atom_model :: atom_model where
  "demo_atom_model = \<lparr>am_type = ''part'', female_mate_points = [], male_mate_points = []\<rparr>"

text \<open>
  A mate model element that gives divisions about the first axis only, the small scene
  with that element for its mate model, and the state in which the plugin has
  registered the model.
\<close>

definition x_only_elem :: mate_model_elem where
  "x_only_elem = demo_mate_elem\<lparr>elem_symmetry := Some (Some (4, 0, 0))\<rparr>"

definition x_only_scene :: sdf_elem where
  "x_only_scene = demo_scene\<lparr>elem_mate_models := [x_only_elem]\<rparr>"

definition x_only_loaded :: soup where
  "x_only_loaded = flow_state (load_mate_models [x_only_elem] AssemblySoup)"

text \<open>
  The number of female instances for a declared point as the spec words it: the product
  of the numbers of divisions about the three axes, where an axis for which none is
  given, its component being 0, counts as 1.
\<close>

definition spec_axis_factor :: "real \<Rightarrow> nat" where
  "spec_axis_factor n = (if n = 0 then 1 else nat \<lceil>n\<rceil>)"

definition spec_instances :: "real \<times> real \<times> real \<Rightarrow> nat" where
  "spec_instances v =
     (case v of (nx, ny, nz) \<Rightarrow> spec_axis_factor nx * spec_axis_factor ny * spec_axis_factor nz)"

section \<open>Basic facts\<close>

lemma emit_fields [simp]:
  "publish_active_mates (emit es s) = publish_active_mates s"
  "updates_per_second (emit es s) = updates_per_second s"
  "running (emit es s) = running s"
  "updateConnection (emit es s) = updateConnection s"
  "mate_models (emit es s) = mate_models s"
  "atom_models (emit es s) = atom_models s"
  "atoms (emit es s) = atoms s"
  "mate_table (emit es s) = mate_table s"
  "mates_to_update (emit es s) = mates_to_update s"
  "mates (emit es s) = mates s"
  "allocated (emit es s) = allocated s"
  "trace (emit es s) = trace s @ es"
  by (simp_all add: emit_def)

lemma assign_fields [simp]:
  "publish_active_mates (assign p m s) = publish_active_mates s"
  "running (assign p m s) = running s"
  "updateConnection (assign p m s) = updateConnection s"
  "atoms (assign p m s) = atoms s"
  "mates_to_update (assign p m s) = mates_to_update s"
  "mates (assign p m s) = mates s"
  "trace (assign p m s) = trace s"
  by (simp_all add: assign_def split: option.splits)

lemma deref_emit [simp]: "deref (emit es s) p = deref s p"
  by (simp add: deref_def)

lemma deref_updates [simp]:
  "deref (s\<lparr>running := b\<rparr>) p = deref s p"
  "deref (s\<lparr>mates_to_update := ps\<rparr>) p = deref s p"
  "deref (s\<lparr>trace := es\<rparr>) p = deref s p"
  by (simp_all add: deref_def)

lemma deref_assign:
  "deref (assign p m s) q =
     (if q = p \<and> mate_table s (fst p) \<noteq> None then Some m else deref s q)"
  by (cases p; cases q) (auto simp: deref_def assign_def split: option.splits)

lemma deref_Some_row: "deref s p = Some m \<Longrightarrow> mate_table s (fst p) \<noteq> None"
  by (auto simp: deref_def split: option.splits)

lemma updateState_calls_append [simp]:
  "updateState_calls (xs @ ys) = updateState_calls xs @ updateState_calls ys"
  by (induction xs rule: updateState_calls.induct) simp_all

lemma updateState_calls_map [simp]: "updateState_calls (map E_updateState ps) = ps"
  by (induction ps) simp_all

lemma updateState_calls_update [simp]: "updateState_calls (map E_update ps) = []"
  by (induction ps) simp_all

lemma updateState_idem: "updateState (updateState m) = updateState m"
  by (cases "pending_state m") (simp_all add: updateState_def)

lemma deref_apply_update:
  "deref (apply_update q s) p = (if p = q then map_option updateState (deref s p) else deref s p)"
  by (cases "deref s q") (auto simp: apply_update_def deref_assign dest: deref_Some_row)

lemma trace_apply_update:
  "trace (apply_update q s) = trace s @ (if deref s q = None then [] else [E_updateState q])"
  by (cases "deref s q") (simp_all add: apply_update_def)

lemma apply_update_fields [simp]:
  "mates (apply_update q s) = mates s"
  "running (apply_update q s) = running s"
  "atoms (apply_update q s) = atoms s"
  "mates_to_update (apply_update q s) = mates_to_update s"
  "publish_active_mates (apply_update q s) = publish_active_mates s"
  "updateConnection (apply_update q s) = updateConnection s"
  by (simp_all add: apply_update_def split: option.splits)

lemma deref_fold_apply_update:
  "deref (fold apply_update ps s) p =
     (if p \<in> set ps then map_option updateState (deref s p) else deref s p)"
proof (induction ps arbitrary: s)
  case Nil
  show ?case by simp
next
  case (Cons q ps)
  show ?case
    by (cases "deref s p")
       (auto simp: Cons.IH deref_apply_update updateState_idem)
qed

lemma trace_fold_apply_update:
  "trace (fold apply_update ps s) = trace s @ map E_updateState [p\<leftarrow>ps. deref s p \<noteq> None]"
proof (induction ps arbitrary: s)
  case Nil
  show ?case by simp
next
  case (Cons q ps)
  have "[p\<leftarrow>ps. deref (apply_update q s) p \<noteq> None] = [p\<leftarrow>ps. deref s p \<noteq> None]"
    by (rule filter_cong) (simp_all add: deref_apply_update)
  then show ?case
    by (simp add: Cons.IH trace_apply_update)
qed

lemma fold_apply_update_fields [simp]:
  "mates (fold apply_update ps s) = mates s"
  "running (fold apply_update ps s) = running s"
  "atoms (fold apply_update ps s) = atoms s"
  "mates_to_update (fold apply_update ps s) = mates_to_update s"
  "publish_active_mates (fold apply_update ps s) = publish_active_mates s"
  "updateConnection (fold apply_update ps s) = updateConnection s"
  by (induction ps arbitrary: s) simp_all

lemma fold_per_tick_update:
  "fold per_tick_update ps s = emit (map E_update ps) s"
  by (induction ps arbitrary: s) (simp_all add: per_tick_update_def emit_def)

lemma trace_OnUpdate:
  "trace (OnUpdate free s) =
     trace s @ (if running s then [] else [E_start_thread]) @ [E_try_to_lock free]
       @ (if free then map E_updateState [p\<leftarrow>mates_to_update s. deref s p \<noteq> None] else [])
       @ map E_update (mates s) @ (if free then [E_unlock] else [])"
  by (simp add: OnUpdate_def Let_def fold_per_tick_update trace_fold_apply_update)

lemma deref_OnUpdate:
  "deref (OnUpdate free s) p =
     (if free \<and> p \<in> set (mates_to_update s) then map_option updateState (deref s p)
      else deref s p)"
  by (simp add: OnUpdate_def Let_def fold_per_tick_update deref_fold_apply_update)

lemma OnUpdate_fields [simp]:
  "mates (OnUpdate free s) = mates s"
  "atoms (OnUpdate free s) = atoms s"
  "publish_active_mates (OnUpdate free s) = publish_active_mates s"
  "mates_to_update (OnUpdate free s) = (if free then [] else mates_to_update s)"
  "running (OnUpdate free s) = True"
  by (simp_all add: OnUpdate_def Let_def fold_per_tick_update)

lemma install_fields [simp]:
  "publish_active_mates (install p m s) = publish_active_mates s"
  "running (install p m s) = running s"
  "updateConnection (install p m s) = updateConnection s"
  "atoms (install p m s) = atoms s"
  "mates_to_update (install p m s) = mates_to_update s"
  "mates (install p m s) = mates s"
  "trace (install p m s) = trace s"
  by (simp_all add: install_def)

lemma deref_install [simp]:
  "deref (install p m s) q = (if q = p then Some m else deref s q)"
  by (cases p; cases q) (auto simp: deref_def install_def split: option.splits)

lemma assign_install: "deref s p = Some m0 \<Longrightarrow> assign p m s = install p m s"
  by (auto simp: deref_def assign_def install_def split: option.splits)

lemma find_or_create_eq:
  "find_or_create mm (fa, fmp, ma, mmp) s =
     (case deref s (mp_ref fmp, mp_ref mmp) of
        Some m \<Rightarrow> (m, s)
      | None \<Rightarrow> (Mate_ctor mm fmp mmp fa ma,
                 emit (Mate_ctor_events (mp_ref fmp, mp_ref mmp))
                   (install (mp_ref fmp, mp_ref mmp) (Mate_ctor mm fmp mmp fa ma) s)))"
  by (simp add: find_or_create_def deref_def install_def Let_def split: option.splits)

lemma stage_eq:
  assumes "deref s p = Some m" and "mate_joint m \<noteq> None"
  shows "stage gsu p m (s, msg) =
     Inr (if pending_state m \<noteq> NONE then (s, msg)
          else (evaluated gsu p m s, listed gsu m s msg))"
proof -
  have a: "assign p m' (s\<lparr>trace := t\<rparr>) = (install p m' s)\<lparr>trace := t\<rparr>" for m' t
    using assms(1) by (auto simp: deref_def assign_def install_def split: option.splits)
  obtain j where j: "mate_joint m = Some j" using assms(2) by auto
  show ?thesis
    by (cases msg) (simp add: stage_def Let_def a j evaluated_def listed_def emit_def)
qed

lemma evaluated_fields [simp]:
  "publish_active_mates (evaluated gsu p m s) = publish_active_mates s"
  "running (evaluated gsu p m s) = running s"
  "updateConnection (evaluated gsu p m s) = updateConnection s"
  "atoms (evaluated gsu p m s) = atoms s"
  "mates (evaluated gsu p m s) = mates s"
  "mates_to_update (evaluated gsu p m s)
     = (if gsu m = NONE then mates_to_update s else List.insert p (mates_to_update s))"
  "trace (evaluated gsu p m s)
     = trace s @ [E_lock, E_getStateUpdate p] @ (if gsu m = NONE then [] else [E_insert p])
         @ [E_unlock]"
  by (simp_all add: evaluated_def Let_def)

lemma deref_evaluated [simp]:
  "deref (evaluated gsu p m s) q
     = (if q = p then Some (m\<lparr>pending_state := gsu m\<rparr>) else deref s q)"
  by (simp add: evaluated_def Let_def)

lemma Mate_ctor_simps [simp]:
  "pending_state (Mate_ctor mm fmp mmp fa ma) = NONE"
  "state (Mate_ctor mm fmp mmp fa ma) = UNMATED"
  "mate_joint (Mate_ctor mm fmp mmp fa ma)
     = Some \<lparr>joint_desc = Mate_joint_sdf mm fmp mmp (snd fa) (snd ma), attached = False\<rparr>"
  by (simp_all add: Mate_ctor_def Let_def Joint_Detach_def Joint_Init_def Joint_Load_def)

lemma scan_pair_cases [consumes 2, case_names skip existing new]:
  assumes run: "scan_pair gsu (fa, fmp, ma, mmp) (s, msg) = Inr (s', msg')"
    and ok: "joints_ok s"
    and skip: "P s msg"
    and existing: "\<And>m. deref s (mp_ref fmp, mp_ref mmp) = Some m \<Longrightarrow> pending_state m = NONE
        \<Longrightarrow> mate_joint m \<noteq> None
        \<Longrightarrow> P (evaluated gsu (mp_ref fmp, mp_ref mmp) m s) (listed gsu m s msg)"
    and new: "\<And>mm m s1. deref s (mp_ref fmp, mp_ref mmp) = None
        \<Longrightarrow> mp_model fmp = Some mm
        \<Longrightarrow> m = Mate_ctor mm fmp mmp fa ma
        \<Longrightarrow> s1 = emit (Mate_ctor_events (mp_ref fmp, mp_ref mmp))
                   (install (mp_ref fmp, mp_ref mmp) m s)
        \<Longrightarrow> P (evaluated gsu (mp_ref fmp, mp_ref mmp) m s1) (listed gsu m s1 msg)"
  shows "P s' msg'"
proof (cases "mp_model fmp \<noteq> mp_model mmp")
  case True
  with run skip show ?thesis by (simp add: scan_pair_def)
next
  case False
  then obtain mm where mm: "mp_model fmp = Some mm"
    using run by (cases "mp_model fmp") (simp_all add: scan_pair_def)
  with False have mm': "mp_model mmp = Some mm" by simp
  let ?p = "(mp_ref fmp, mp_ref mmp)"
  show ?thesis
  proof (cases "deref s ?p")
    case None
    define m where "m = Mate_ctor mm fmp mmp fa ma"
    define s1 where "s1 = emit (Mate_ctor_events ?p) (install ?p m s)"
    have d: "deref s1 ?p = Some m" by (simp add: s1_def)
    have j: "mate_joint m \<noteq> None" by (simp add: m_def)
    have "scan_pair gsu (fa, fmp, ma, mmp) (s, msg) = stage gsu ?p m (s1, msg)"
      using None by (simp add: scan_pair_def mm mm' find_or_create_eq m_def s1_def)
    also have "\<dots> = Inr (evaluated gsu ?p m s1, listed gsu m s1 msg)"
      using stage_eq [OF d j, of gsu msg] by (simp add: m_def)
    finally show ?thesis
      using run new [OF None mm m_def s1_def] by simp
  next
    case (Some m)
    have j: "mate_joint m \<noteq> None" using ok Some by (auto simp: joints_ok_def)
    have "scan_pair gsu (fa, fmp, ma, mmp) (s, msg) = stage gsu ?p m (s, msg)"
      using Some by (simp add: scan_pair_def mm mm' find_or_create_eq)
    then have "Inr (s', msg') = (Inr (if pending_state m \<noteq> NONE then (s, msg)
          else (evaluated gsu ?p m s, listed gsu m s msg)) :: error + soup \<times> mate_list)"
      using run by (simp add: stage_eq [OF Some j])
    then show ?thesis
      using skip existing [OF Some _ j] by (cases "pending_state m = NONE") simp_all
  qed
qed

lemma fold_err_inv:
  assumes "fold_err f xs s = Inr s'" and "P s"
    and "\<And>x s s'. x \<in> set xs \<Longrightarrow> P s \<Longrightarrow> f x s = Inr s' \<Longrightarrow> P s'"
  shows "P s'"
  using assms
proof (induction xs arbitrary: s)
  case Nil
  then show ?case by simp
next
  case (Cons x xs)
  from Cons.prems(1) obtain s1 where s1: "f x s = Inr s1" and r: "fold_err f xs s1 = Inr s'"
    by (cases "f x s") simp_all
  have "P s1" using Cons.prems(3) [of x s s1] Cons.prems(2) s1 by simp
  moreover have "\<And>y t t'. y \<in> set xs \<Longrightarrow> P t \<Longrightarrow> f y t = Inr t' \<Longrightarrow> P t'"
    using Cons.prems(3) by (meson list.set_intros(2))
  ultimately show ?case using Cons.IH [OF r] by blast
qed

lemma table_ok_joints: "table_ok s \<Longrightarrow> joints_ok s"
  by (simp add: table_ok_def joints_ok_def)

lemma table_ok_scan_pair:
  assumes "scan_pair gsu c (s, msg) = Inr (s', msg')" and "table_ok s"
  shows "table_ok s'"
proof -
  obtain fa fmp ma mmp where c: "c = (fa, fmp, ma, mmp)" by (cases c) auto
  have r: "scan_pair gsu (fa, fmp, ma, mmp) (s, msg) = Inr (s', msg')" using assms(1) c by simp
  show ?thesis
  proof (induction rule: scan_pair_cases [OF r table_ok_joints [OF assms(2)]])
    case 1
    show ?case by (rule assms(2))
  next
    case (2 m)
    with assms(2) show ?case
      by (simp add: table_ok_def)
  next
    case (3 mm m s1)
    with assms(2) show ?case
      by (simp add: table_ok_def Mate_ctor_events_def)
  qed
qed

section \<open>What loading leaves alone\<close>

lemma untouched_refl [simp]: "untouched s s"
  by (simp add: untouched_def)

lemma untouched_trans: "untouched s s1 \<Longrightarrow> untouched s1 s2 \<Longrightarrow> untouched s s2"
  by (auto simp: untouched_def)

lemma untouched_emit_gzerr [simp]: "untouched s (emit [E_gzerr msg] s)"
  by (simp add: untouched_def)

lemma untouched_updates [simp]:
  "untouched s (s\<lparr>mate_models := mms\<rparr>)"
  "untouched s (s\<lparr>atom_models := ams\<rparr>)"
  "untouched s (s\<lparr>atoms := as\<rparr>)"
  "untouched s (s\<lparr>allocated := n\<rparr>)"
  "untouched s (s\<lparr>publish_active_mates := b\<rparr>)"
  "untouched s (s\<lparr>updates_per_second := k\<rparr>)"
  by (simp_all add: untouched_def)

lemma untouched_configure: "untouched s (configure sdf s)"
  by (auto simp: configure_def Let_def untouched_def split: option.splits if_splits)

lemma flow_state_simps [simp]: "flow_state (Return s) = s" "flow_state (Continue s) = s"
  by (simp_all add: flow_state_def)

lemma untouched_load_mate_models: "untouched s (flow_state (load_mate_models es s))"
proof (induction es arbitrary: s)
  case Nil
  show ?case by simp
next
  case (Cons e es)
  show ?case
    by (auto simp: Let_def split: option.splits
          intro: Cons.IH untouched_trans [OF untouched_updates(1) Cons.IH])
qed

lemma untouched_add_female:
  "add_female_mate_points mm b ps (am, s) = (am', s') \<Longrightarrow> untouched s s'"
proof (induction ps arbitrary: am s)
  case Nil
  then show ?case by simp
next
  case (Cons p ps)
  from Cons.prems show ?case
    by (auto dest!: Cons.IH intro: untouched_trans [OF untouched_updates(4)])
qed

lemma untouched_mate_models_at: "mate_models_at t s = (v, s') \<Longrightarrow> untouched s s'"
  by (auto simp: mate_models_at_def split: option.splits)

lemma untouched_load_mate_points:
  "load_mate_points es (am, s) = Inr (am', s') \<Longrightarrow> untouched s s'"
proof (induction es arbitrary: am s)
  case Nil
  then show ?case by simp
next
  case (Cons e es)
  obtain v s1 where at: "mate_models_at (mpe_type e) s = (v, s1)"
    by (cases "mate_models_at (mpe_type e) s") auto
  have u1: "untouched s s1" by (rule untouched_mate_models_at [OF at])
  show ?case
  proof (cases "iequals (mpe_gender e) ''female''")
    case True
    then obtain mm where v: "v = Some mm"
      using Cons.prems at by (cases v) auto
    obtain am2 s2 where af:
      "add_female_mate_points mm (PoseElem (mpe_pose e)) (symmetries mm) (am, s1) = (am2, s2)"
      by (cases "add_female_mate_points mm (PoseElem (mpe_pose e)) (symmetries mm) (am, s1)") auto
    have "load_mate_points es (am2, s2) = Inr (am', s')"
      using Cons.prems at True v af by simp
    then have "untouched s2 s'" by (rule Cons.IH)
    with u1 untouched_add_female [OF af] show ?thesis
      by (blast intro: untouched_trans)
  next
    case False
    show ?thesis
    proof (cases "iequals (mpe_gender e) ''male''")
      case True
      with False Cons.prems at show ?thesis
        by (auto dest!: Cons.IH intro: untouched_trans [OF u1] untouched_trans [OF untouched_updates(4)])
    next
      case nm: False
      with False Cons.prems at show ?thesis
        by (auto dest!: Cons.IH intro: untouched_trans [OF u1] untouched_trans [OF untouched_emit_gzerr])
    qed
  qed
qed

lemma untouched_load_atom_models:
  "load_atom_models es s = Inr s' \<Longrightarrow> untouched s s'"
proof (induction es arbitrary: s)
  case Nil
  then show ?case by simp
next
  case (Cons e es)
  from Cons.prems obtain am s1 where
    mp: "load_mate_points (ame_mate_points e)
           (\<lparr>am_type = ame_type e, female_mate_points = [], male_mate_points = []\<rparr>, s) = Inr (am, s1)"
    and r: "load_atom_models es (s1\<lparr>atom_models := map_set (am_type am) am (atom_models s1)\<rparr>) = Inr s'"
    by (auto split: sum.splits)
  from untouched_load_mate_points [OF mp] Cons.IH [OF r] show ?case
    by (blast intro: untouched_trans untouched_updates(2))
qed

lemma untouched_load_atoms: "untouched s (load_atoms ls s)"
proof (induction ls arbitrary: s)
  case Nil
  show ?case by simp
next
  case (Cons l ls)
  show ?case
    by (auto split: option.splits intro: Cons.IH untouched_trans [OF untouched_updates(3) Cons.IH])
qed

lemma untouched_Load: "Load links sdf s = Inr s' \<Longrightarrow> untouched s s'"
proof -
  assume a: "Load links sdf s = Inr s'"
  have c: "untouched s (configure sdf s)" by (rule untouched_configure)
  show ?thesis
  proof (cases "load_mate_models (elem_mate_models sdf) (configure sdf s)")
    case (Return s1)
    with a have "s' = s1" by (simp add: Load_def)
    with untouched_load_mate_models [of "configure sdf s" "elem_mate_models sdf"] Return c
    show ?thesis
      by (auto intro: untouched_trans)
  next
    case (Continue s1)
    with a obtain s2 where s2: "load_atom_models (elem_atom_models sdf) s1 = Inr s2"
      and s': "s' = emit [E_ConnectWorldUpdateBegin] ((load_atoms links s2)\<lparr>updateConnection := True\<rparr>)"
      by (auto simp: Load_def split: sum.splits)
    have "untouched s s1"
      using untouched_load_mate_models [of "configure sdf s" "elem_mate_models sdf"] Continue c
      by (auto intro: untouched_trans)
    then have "untouched s s2" using untouched_load_atom_models [OF s2]
      by (blast intro: untouched_trans)
    then have "untouched s (load_atoms links s2)" using untouched_load_atoms
      by (blast intro: untouched_trans)
    then show ?thesis
      by (auto simp: s' untouched_def)
  qed
qed

lemma count_list_load_event:
  "list_all load_event es \<Longrightarrow>
     count_list es (E_Mate_ctor p) = 0 \<and> count_list es (E_CreateJoint p) = 0"
  by (induction es) auto

lemma table_ok_Load:
  assumes "Load links sdf AssemblySoup = Inr s"
  shows "table_ok s"
proof -
  from untouched_Load [OF assms] obtain es where
    "mate_table s = Map.empty" and "trace s = es" and "list_all load_event es"
    by (auto simp: untouched_def AssemblySoup_def)
  then show ?thesis
    using count_list_load_event [of es] by (simp add: table_ok_def deref_def)
qed

section \<open>The table invariant along a run\<close>

lemma table_ok_cycle:
  assumes "getStateUpdates gsu s = Inr s'" and "table_ok s"
  shows "table_ok s'"
proof -
  from assms(1) obtain s1 msg where
    f: "fold_err (scan_pair gsu) (candidates (atoms s)) (s, [], []) = Inr (s1, msg)"
    and s': "s' = (if publish_active_mates s1 then emit [E_publish (fst msg) (snd msg)] s1 else s1)"
    by (auto simp: getStateUpdates_def split: sum.splits)
  have "table_ok (fst (s1, msg))"
  proof (rule fold_err_inv [OF f, where P = "\<lambda>sm :: soup \<times> mate_list. table_ok (fst sm)"])
    show "table_ok (fst (s, [], []))" using assms(2) by simp
  next
    fix c sm sm'
    assume "table_ok (fst sm)" and "scan_pair gsu c sm = Inr sm'"
    then show "table_ok (fst sm')"
      using table_ok_scan_pair [of gsu c "fst sm" "snd sm" "fst sm'" "snd sm'"] by simp
  qed
  then show ?thesis
    by (simp add: s' table_ok_def)
qed

lemma map_option_updateState_None [simp]: "map_option updateState x = None \<longleftrightarrow> x = None"
  by (cases x) simp_all

lemma updateState_joint: "mate_joint (updateState m) = None \<longleftrightarrow> mate_joint m = None"
  by (cases "pending_state m") (simp_all add: updateState_def)

lemma updateState_joint_Some: "mate_joint m = Some j \<Longrightarrow> \<exists>j'. mate_joint (updateState m) = Some j'"
  using updateState_joint [of m] by auto

lemma count_list_map_inj_other:
  "(\<And>x. f x \<noteq> e) \<Longrightarrow> count_list (map f xs) e = 0"
  by (induction xs) auto

lemma table_okD:
  assumes "table_ok s"
  shows "count_list (trace s) (E_Mate_ctor p) = (if deref s p = None then 0 else 1)"
    and "count_list (trace s) (E_CreateJoint p) = (if deref s p = None then 0 else 1)"
    and "deref s p = Some m \<Longrightarrow> mate_joint m \<noteq> None"
  using assms unfolding table_ok_def by blast+

lemma table_ok_OnUpdate:
  assumes "table_ok s"
  shows "table_ok (OnUpdate free s)"
proof -
  have c: "count_list (trace (OnUpdate free s)) (E_Mate_ctor p)
             = count_list (trace s) (E_Mate_ctor p)
           \<and> count_list (trace (OnUpdate free s)) (E_CreateJoint p)
             = count_list (trace s) (E_CreateJoint p)" for p
    by (simp add: trace_OnUpdate count_list_map_inj_other)
  have d: "deref (OnUpdate free s) p = None \<longleftrightarrow> deref s p = None" for p
    by (simp add: deref_OnUpdate)
  have j: "mate_joint m' \<noteq> None" if "deref (OnUpdate free s) p = Some m'" for p m'
  proof (cases "deref s p")
    case None
    with that d [of p] show ?thesis by simp
  next
    case (Some m)
    with table_ok_joints [OF assms] have "mate_joint m \<noteq> None"
      unfolding joints_ok_def by blast
    moreover have "m' = m \<or> m' = updateState m"
      using that Some by (auto simp: deref_OnUpdate split: if_splits)
    ultimately show ?thesis using updateState_joint [of m] by auto
  qed
  show ?thesis
    unfolding table_ok_def
  proof (intro allI conjI)
    fix p
    show "count_list (trace (OnUpdate free s)) (E_Mate_ctor p)
            = (if deref (OnUpdate free s) p = None then 0 else 1)"
      using table_okD(1) [OF assms, of p] c [of p] d [of p] by simp
    show "count_list (trace (OnUpdate free s)) (E_CreateJoint p)
            = (if deref (OnUpdate free s) p = None then 0 else 1)"
      using table_okD(2) [OF assms, of p] c [of p] d [of p] by simp
    show "\<And>m. deref (OnUpdate free s) p = Some m \<longrightarrow> mate_joint m \<noteq> None"
      using j by blast
  qed
qed

lemma table_ok_exec: "exec st s = Inr s' \<Longrightarrow> table_ok s \<Longrightarrow> table_ok s'"
  by (cases st) (auto intro: table_ok_cycle table_ok_OnUpdate split: if_splits)

lemma table_ok_run:
  assumes "run steps s = Inr s'" and "table_ok s"
  shows "table_ok s'"
  using assms unfolding run_def
  by (rule fold_err_inv) (rule table_ok_exec)

lemma fold_err_total:
  assumes "P s" and "\<And>x s. x \<in> set xs \<Longrightarrow> P s \<Longrightarrow> \<exists>s'. f x s = Inr s' \<and> P s'"
  shows "\<exists>s'. fold_err f xs s = Inr s' \<and> P s'"
  using assms
proof (induction xs arbitrary: s)
  case Nil
  then show ?case by simp
next
  case (Cons x xs)
  from Cons.prems(2) [of x s] Cons.prems(1) obtain s1 where s1: "f x s = Inr s1" "P s1"
    by auto
  have "\<exists>s'. fold_err f xs s1 = Inr s' \<and> P s'"
    by (rule Cons.IH [OF s1(2)]) (rule Cons.prems(2), simp_all)
  with s1 show ?case by simp
qed

lemma scan_pair_total:
  assumes "joints_ok s" and "mp_model fmp \<noteq> None"
  shows "\<exists>sm'. scan_pair gsu (fa, fmp, ma, mmp) (s, msg) = Inr sm'"
proof (cases "mp_model fmp \<noteq> mp_model mmp")
  case True
  then show ?thesis by (simp add: scan_pair_def)
next
  case False
  from assms(2) obtain mm where mm: "mp_model fmp = Some mm" by auto
  with False have mm': "mp_model mmp = Some mm" by simp
  let ?p = "(mp_ref fmp, mp_ref mmp)"
  show ?thesis
  proof (cases "deref s ?p")
    case None
    define m where "m = Mate_ctor mm fmp mmp fa ma"
    define s1 where "s1 = emit (Mate_ctor_events ?p) (install ?p m s)"
    have d: "deref s1 ?p = Some m" by (simp add: s1_def)
    have j: "mate_joint m \<noteq> None" by (simp add: m_def)
    have "scan_pair gsu (fa, fmp, ma, mmp) (s, msg) = stage gsu ?p m (s1, msg)"
      using None by (simp add: scan_pair_def mm mm' find_or_create_eq m_def s1_def)
    then show ?thesis using stage_eq [OF d j, of gsu msg] by simp
  next
    case (Some m)
    have j: "mate_joint m \<noteq> None" using assms(1) Some by (auto simp: joints_ok_def)
    have "scan_pair gsu (fa, fmp, ma, mmp) (s, msg) = stage gsu ?p m (s, msg)"
      using Some by (simp add: scan_pair_def mm mm' find_or_create_eq)
    then show ?thesis using stage_eq [OF Some j, of gsu msg] by simp
  qed
qed

lemma candidates_female:
  assumes "(fa, fmp, ma, mmp) \<in> set (candidates as)"
  shows "snd fa \<in> set as \<and> fmp \<in> set (female_mate_points (atom_model_of (snd fa)))"
  using assms by (auto simp: candidates_def in_set_enumerate_eq split: if_splits)

lemma scan_pair_atoms:
  assumes "scan_pair gsu c (s, msg) = Inr (s', msg')" and "joints_ok s"
  shows "atoms s' = atoms s \<and> publish_active_mates s' = publish_active_mates s
         \<and> mates s' = mates s \<and> running s' = running s"
proof -
  obtain fa fmp ma mmp where c: "c = (fa, fmp, ma, mmp)" by (cases c) auto
  have r: "scan_pair gsu (fa, fmp, ma, mmp) (s, msg) = Inr (s', msg')" using assms(1) c by simp
  show ?thesis
    by (induction rule: scan_pair_cases [OF r assms(2)]) simp_all
qed

lemma cycle_total:
  assumes "table_ok s" and "atoms_ok s"
  shows "\<exists>s'. getStateUpdates gsu s = Inr s' \<and> table_ok s' \<and> atoms s' = atoms s"
proof -
  let ?P = "\<lambda>sm :: soup \<times> mate_list. table_ok (fst sm) \<and> atoms (fst sm) = atoms s"
  have "\<exists>sm'. fold_err (scan_pair gsu) (candidates (atoms s)) (s, [], []) = Inr sm' \<and> ?P sm'"
  proof (rule fold_err_total [where P = ?P])
    show "?P (s, [], [])" using assms(1) by simp
  next
    fix c sm
    assume c: "c \<in> set (candidates (atoms s))" and P: "?P sm"
    obtain fa fmp ma mmp where ceq: "c = (fa, fmp, ma, mmp)" by (cases c) auto
    have "mp_model fmp \<noteq> None"
      using candidates_female [of fa fmp ma mmp "atoms s"] c ceq assms(2)
      by (auto simp: atoms_ok_def females_ok_def list_all_iff)
    with P obtain sm' where sm': "scan_pair gsu c sm = Inr sm'"
      using scan_pair_total [of "fst sm" fmp gsu fa ma mmp "snd sm"] ceq
      by (auto dest: table_ok_joints)
    have "table_ok (fst sm')"
      using table_ok_scan_pair [of gsu c "fst sm" "snd sm" "fst sm'" "snd sm'"] sm' P by simp
    moreover have "atoms (fst sm') = atoms s"
      using scan_pair_atoms [of gsu c "fst sm" "snd sm" "fst sm'" "snd sm'"] sm' P
      by (auto dest: table_ok_joints)
    ultimately show "\<exists>sm'. scan_pair gsu c sm = Inr sm' \<and> ?P sm'" using sm' by blast
  qed
  then obtain s1 msg where
    f: "fold_err (scan_pair gsu) (candidates (atoms s)) (s, [], []) = Inr (s1, msg)"
    and P: "table_ok s1" "atoms s1 = atoms s"
    by auto
  then show ?thesis
    by (simp add: getStateUpdates_def table_ok_def)
qed

lemma run_total:
  assumes "table_ok s" and "atoms_ok s"
  shows "\<exists>s'. run steps s = Inr s' \<and> table_ok s' \<and> atoms s' = atoms s"
proof -
  let ?P = "\<lambda>t. table_ok t \<and> atoms t = atoms s"
  have "\<exists>s'. fold_err exec steps s = Inr s' \<and> ?P s'"
  proof (rule fold_err_total [where P = ?P])
    show "?P s" using assms(1) by simp
  next
    fix st t
    assume P: "?P t"
    then have ok: "atoms_ok t" using assms(2) by (simp add: atoms_ok_def)
    show "\<exists>t'. exec st t = Inr t' \<and> ?P t'"
    proof (cases st)
      case (Discover gsu)
      then show ?thesis using cycle_total [of t gsu] P ok by (cases "running t") auto
    next
      case (Tick free)
      then show ?thesis using P by (simp add: table_ok_OnUpdate)
    qed
  qed
  then show ?thesis by (simp add: run_def)
qed

section \<open>What loading establishes\<close>

lemma kept_refl [simp]: "kept s s"
  by (simp add: kept_def)

lemma kept_trans: "kept s s1 \<Longrightarrow> kept s1 s2 \<Longrightarrow> kept s s2"
  by (simp add: kept_def)

lemma kept_updates [simp]:
  "kept s (s\<lparr>mate_models := mms\<rparr>)"
  "kept s (s\<lparr>allocated := n\<rparr>)"
  "kept s (emit es s)"
  by (simp_all add: kept_def)

lemma kept_load_mate_models: "kept s (flow_state (load_mate_models es s))"
proof (induction es arbitrary: s)
  case Nil
  show ?case by simp
next
  case (Cons e es)
  show ?case
    by (auto simp: Let_def split: option.splits
          intro: Cons.IH kept_trans [OF kept_updates(1) Cons.IH])
qed

lemma kept_add_female:
  "add_female_mate_points mm b ps (am, s) = (am', s') \<Longrightarrow> kept s s'"
proof (induction ps arbitrary: am s)
  case Nil
  then show ?case by simp
next
  case (Cons p ps)
  from Cons.prems show ?case
    by (auto dest!: Cons.IH intro: kept_trans [OF kept_updates(2)])
qed

lemma kept_mate_models_at: "mate_models_at t s = (v, s') \<Longrightarrow> kept s s'"
  by (auto simp: mate_models_at_def split: option.splits)

lemma kept_load_mate_points:
  "load_mate_points es (am, s) = Inr (am', s') \<Longrightarrow> kept s s'"
proof (induction es arbitrary: am s)
  case Nil
  then show ?case by simp
next
  case (Cons e es)
  obtain v s1 where at: "mate_models_at (mpe_type e) s = (v, s1)"
    by (cases "mate_models_at (mpe_type e) s") auto
  have u1: "kept s s1" by (rule kept_mate_models_at [OF at])
  show ?case
  proof (cases "iequals (mpe_gender e) ''female''")
    case True
    then obtain mm where v: "v = Some mm"
      using Cons.prems at by (cases v) auto
    obtain am2 s2 where af:
      "add_female_mate_points mm (PoseElem (mpe_pose e)) (symmetries mm) (am, s1) = (am2, s2)"
      by (cases "add_female_mate_points mm (PoseElem (mpe_pose e)) (symmetries mm) (am, s1)") auto
    have "load_mate_points es (am2, s2) = Inr (am', s')"
      using Cons.prems at True v af by simp
    then have "kept s2 s'" by (rule Cons.IH)
    with u1 kept_add_female [OF af] show ?thesis
      by (blast intro: kept_trans)
  next
    case False
    show ?thesis
    proof (cases "iequals (mpe_gender e) ''male''")
      case True
      with False Cons.prems at show ?thesis
        by (auto dest!: Cons.IH intro: kept_trans [OF u1] kept_trans [OF kept_updates(2)])
    next
      case nm: False
      with False Cons.prems at show ?thesis
        by (auto dest!: Cons.IH intro: kept_trans [OF u1] kept_trans [OF kept_updates(3)])
    qed
  qed
qed

lemma females_ok_add_female:
  "add_female_mate_points mm b ps (am, s) = (am', s') \<Longrightarrow> females_ok am \<Longrightarrow> females_ok am'"
proof (induction ps arbitrary: am s)
  case Nil
  then show ?case by simp
next
  case (Cons p ps)
  from Cons.prems show ?case
    by (auto dest!: Cons.IH simp: females_ok_def)
qed

lemma females_ok_load_mate_points:
  "load_mate_points es (am, s) = Inr (am', s') \<Longrightarrow> females_ok am \<Longrightarrow> females_ok am'"
proof (induction es arbitrary: am s)
  case Nil
  then show ?case by simp
next
  case (Cons e es)
  obtain v s1 where at: "mate_models_at (mpe_type e) s = (v, s1)"
    by (cases "mate_models_at (mpe_type e) s") auto
  show ?case
  proof (cases "iequals (mpe_gender e) ''female''")
    case True
    then obtain mm where v: "v = Some mm"
      using Cons.prems at by (cases v) auto
    obtain am2 s2 where af:
      "add_female_mate_points mm (PoseElem (mpe_pose e)) (symmetries mm) (am, s1) = (am2, s2)"
      by (cases "add_female_mate_points mm (PoseElem (mpe_pose e)) (symmetries mm) (am, s1)") auto
    have "load_mate_points es (am2, s2) = Inr (am', s')"
      using Cons.prems at True v af by simp
    moreover have "females_ok am2" using females_ok_add_female [OF af] Cons.prems(2) .
    ultimately show ?thesis by (rule Cons.IH)
  next
    case False
    with Cons.prems at show ?thesis
      by (auto split: if_splits dest!: Cons.IH simp: females_ok_def)
  qed
qed

lemma set_map_set: "set (map_set k v xs) \<subseteq> insert (k, v) (set xs)"
  by (induction xs) (auto split: if_splits)

lemma atom_models_ok_load_atom_models:
  "load_atom_models es s = Inr s' \<Longrightarrow> atom_models_ok s \<Longrightarrow> atom_models_ok s'"
proof (induction es arbitrary: s)
  case Nil
  then show ?case by simp
next
  case (Cons e es)
  from Cons.prems obtain am s1 where
    mp: "load_mate_points (ame_mate_points e)
           (\<lparr>am_type = ame_type e, female_mate_points = [], male_mate_points = []\<rparr>, s) = Inr (am, s1)"
    and r: "load_atom_models es (s1\<lparr>atom_models := map_set (am_type am) am (atom_models s1)\<rparr>) = Inr s'"
    by (auto split: sum.splits)
  have "females_ok am"
    by (rule females_ok_load_mate_points [OF mp]) (simp add: females_ok_def)
  moreover have "atom_models s1 = atom_models s"
    using kept_load_mate_points [OF mp] by (simp add: kept_def)
  ultimately have "atom_models_ok (s1\<lparr>atom_models := map_set (am_type am) am (atom_models s1)\<rparr>)"
    using Cons.prems(2) set_map_set [of "am_type am" am "atom_models s"]
    by (auto simp: atom_models_ok_def list_all_iff)
  then show ?case by (rule Cons.IH [OF r])
qed

lemma find_atom_model_in:
  "find_atom_model l ams = Some am \<Longrightarrow> am \<in> snd ` set ams"
  by (induction ams) (auto split: if_splits)

lemma atoms_ok_load_atoms:
  "atom_models_ok s \<Longrightarrow> atoms_ok s \<Longrightarrow> atoms_ok (load_atoms ls s)"
proof (induction ls arbitrary: s)
  case Nil
  then show ?case by simp
next
  case (Cons l ls)
  show ?case
  proof (cases "find_atom_model l (atom_models s)")
    case None
    with Cons show ?thesis by simp
  next
    case (Some am)
    have "females_ok am"
      using find_atom_model_in [OF Some] Cons.prems(1)
      by (auto simp: atom_models_ok_def list_all_iff)
    with Cons.prems have "atoms_ok (s\<lparr>atoms := atoms s @ [\<lparr>link = l, atom_model_of = am\<rparr>]\<rparr>)"
      and "atom_models_ok (s\<lparr>atoms := atoms s @ [\<lparr>link = l, atom_model_of = am\<rparr>]\<rparr>)"
      by (simp_all add: atoms_ok_def atom_models_ok_def)
    with Some show ?thesis by (simp add: Cons.IH)
  qed
qed

lemma load_atom_models_atoms:
  "load_atom_models es s = Inr s' \<Longrightarrow>
     atoms s' = atoms s \<and> updateConnection s' = updateConnection s
     \<and> publish_active_mates s' = publish_active_mates s"
proof (induction es arbitrary: s)
  case Nil
  then show ?case by simp
next
  case (Cons e es)
  from Cons.prems obtain am s1 where
    mp: "load_mate_points (ame_mate_points e)
           (\<lparr>am_type = ame_type e, female_mate_points = [], male_mate_points = []\<rparr>, s) = Inr (am, s1)"
    and r: "load_atom_models es (s1\<lparr>atom_models := map_set (am_type am) am (atom_models s1)\<rparr>) = Inr s'"
    by (auto split: sum.splits)
  from kept_load_mate_points [OF mp] Cons.IH [OF r] show ?case
    by (simp add: kept_def)
qed

lemma load_atoms_fields [simp]:
  "atom_models (load_atoms ls s) = atom_models s"
  "updateConnection (load_atoms ls s) = updateConnection s"
  "publish_active_mates (load_atoms ls s) = publish_active_mates s"
  by (induction ls arbitrary: s) (simp_all split: option.splits)

lemma kept_configure:
  "atom_models (configure sdf s) = atom_models s \<and> atoms (configure sdf s) = atoms s
   \<and> updateConnection (configure sdf s) = updateConnection s"
  by (auto simp: configure_def Let_def split: option.splits if_splits)

lemma atoms_ok_Load:
  assumes "Load links sdf AssemblySoup = Inr s"
  shows "atoms_ok s"
proof -
  let ?c = "configure sdf AssemblySoup"
  have c: "atom_models ?c = [] \<and> atoms ?c = []"
    using kept_configure [of sdf AssemblySoup] by (simp add: AssemblySoup_def)
  have k: "kept ?c (flow_state (load_mate_models (elem_mate_models sdf) ?c))"
    by (rule kept_load_mate_models)
  show ?thesis
  proof (cases "load_mate_models (elem_mate_models sdf) ?c")
    case (Return s1)
    then have "s = s1" using assms by (simp add: Load_def)
    with k c Return show ?thesis
      by (simp add: kept_def atoms_ok_def)
  next
    case (Continue s1)
    with k c have s1: "atom_models s1 = []" "atoms s1 = []"
      by (simp_all add: kept_def)
    from assms Continue obtain s2 where s2: "load_atom_models (elem_atom_models sdf) s1 = Inr s2"
      and s: "s = emit [E_ConnectWorldUpdateBegin] ((load_atoms links s2)\<lparr>updateConnection := True\<rparr>)"
      by (auto simp: Load_def split: sum.splits)
    have a: "atom_models_ok s2"
      by (rule atom_models_ok_load_atom_models [OF s2]) (simp add: atom_models_ok_def s1)
    have "atoms s2 = []" using load_atom_models_atoms [OF s2] s1 by simp
    then have "atoms_ok s2" by (simp add: atoms_ok_def)
    with a have "atoms_ok (load_atoms links s2)" by (rule atoms_ok_load_atoms)
    then show ?thesis by (simp add: s atoms_ok_def)
  qed
qed

section \<open>Facts about the loops of loading\<close>

lemma load_mate_models_aborts:
  assumes "aborts e s"
  shows "\<exists>msg. load_mate_models (e # es) s = Return (emit [E_gzerr msg] s)"
proof (cases "attr_model e")
  case None
  then have "load_mate_models (e # es) s
      = Return (emit [E_gzerr ''ERROR: no mate model type for mate model''] s)"
    by simp
  then show ?thesis by (rule exI)
next
  case m: (Some model)
  show ?thesis
  proof (cases "attr_type e")
    case None
    with m have "load_mate_models (e # es) s
        = Return (emit [E_gzerr ''ERROR: no mate type for mate model''] s)"
      by simp
    then show ?thesis by (rule exI)
  next
    case (Some t)
    with m assms have a: "map_of (mate_models s) t = None" "model \<noteq> ''proximity''"
      "model \<noteq> ''dipole''"
      by (simp_all add: aborts_def)
    have "load_mate_models (e # es) s
        = Return (emit [E_gzerr (''ERROR: '' @ [CHR 0x22] @ model @ [CHR 0x22]
                                            @ '' is not a valid model type'')] s)"
      using m Some a by simp
    then show ?thesis by (rule exI)
  qed
qed


lemma load_mate_models_append:
  "load_mate_models (pre @ rest) s =
     (case load_mate_models pre s of Return s' \<Rightarrow> Return s' | Continue s1 \<Rightarrow> load_mate_models rest s1)"
proof (induction pre arbitrary: s)
  case Nil
  show ?case by simp
next
  case (Cons e pre)
  show ?case
    by (cases "attr_model e"; cases "attr_type e") (simp_all add: Cons.IH Let_def)
qed

text \<open>The loop over the mate model elements records error messages only.\<close>

lemma gzerr_only_load_mate_models:
  "\<exists>es. trace (flow_state (load_mate_models pre s)) = trace s @ es
        \<and> E_ConnectWorldUpdateBegin \<notin> set es"
proof (induction pre arbitrary: s)
  case Nil
  show ?case by simp
next
  case (Cons e pre)
  show ?case
  proof (cases "aborts e s")
    case True
    from load_mate_models_aborts [OF True, of pre] show ?thesis by auto
  next
    case False
    then obtain model t where mt: "attr_model e = Some model" "attr_type e = Some t"
      by (auto simp: aborts_def split: option.splits)
    from False mt have "map_of (mate_models s) t \<noteq> None \<or> model = ''proximity'' \<or> model = ''dipole''"
      by (simp add: aborts_def)
    then have "\<exists>s1. load_mate_models (e # pre) s = load_mate_models pre s1 \<and> trace s1 = trace s"
      using mt by (auto simp: Let_def)
    then obtain s1 where "load_mate_models (e # pre) s = load_mate_models pre s1" "trace s1 = trace s"
      by blast
    with Cons.IH [of s1] show ?thesis by simp
  qed
qed

lemma mate_models_at_allocated:
  "allocated (snd (mate_models_at t s)) = allocated s
   \<and> trace (snd (mate_models_at t s)) = trace s
   \<and> atom_models (snd (mate_models_at t s)) = atom_models s"
  by (simp add: mate_models_at_def split: option.splits)

lemma female_instances_props:
  "length (female_instances mm b a n poses) = length poses"
  "map mp_pose (female_instances mm b a n poses) = map (FrameMul b) poses"
  "map mp_id (female_instances mm b a n poses) = [n..<n + length poses]"
  "map mp_ref (female_instances mm b a n poses) = [a..<a + length poses]"
  "list_all (\<lambda>p. mp_model p = Some mm) (female_instances mm b a n poses)"
  by (induction poses arbitrary: a n) (simp_all add: upt_rec)

lemma add_female_mate_points_eq:
  "add_female_mate_points mm b poses (am, s) =
     (am\<lparr>female_mate_points := female_mate_points am
            @ female_instances mm b (allocated s)
                (length (female_mate_points am) + length (male_mate_points am)) poses\<rparr>,
      s\<lparr>allocated := allocated s + length poses\<rparr>)"
proof (induction poses arbitrary: am s)
  case Nil
  show ?case by simp
next
  case (Cons p ps)
  show ?case by (simp add: Cons.IH)
qed

lemma ceil_step: "i < n \<Longrightarrow> nat \<lceil>n - i\<rceil> = Suc (nat \<lceil>n - (i + 1)\<rceil>)" for i n :: real
proof -
  assume a: "i < n"
  have "\<lceil>n - i\<rceil> = \<lceil>n - (i + 1)\<rceil> + 1"
    by (metis add.commute ceiling_add_one diff_add_eq_diff_diff_swap diff_add_cancel diff_diff_eq)
  moreover have "0 \<le> \<lceil>n - (i + 1)\<rceil>" using a by linarith
  ultimately show ?thesis by (simp add: nat_add_distrib)
qed

lemma counter_values_eq:
  "counter_values i n = map (\<lambda>k. i + real k) [0..<nat \<lceil>n - i\<rceil>]"
proof (induction i n rule: counter_values.induct)
  case (1 i n)
  show ?case
  proof (cases "i < n")
    case True
    note c = ceil_step [OF True]
    have "counter_values i n = i # counter_values (i + 1) n"
      using True by (subst counter_values.simps) simp
    also have "\<dots> = i # map (\<lambda>k. i + 1 + real k) [0..<nat \<lceil>n - (i + 1)\<rceil>]"
      using 1 True by simp
    also have "\<dots> = map (\<lambda>k. i + real k) [0..<nat \<lceil>n - i\<rceil>]"
      unfolding c by (simp add: upt_conv_Cons map_Suc_upt [symmetric] add.assoc add.commute del: upt_Suc)
    finally show ?thesis .
  next
    case False
    then have "\<lceil>n - i\<rceil> \<le> 0" by (simp add: ceiling_le_iff)
    then show ?thesis
      using False by (subst counter_values.simps) simp
  qed
qed

lemma counter_values_0: "counter_values 0 n = map real [0..<nat \<lceil>n\<rceil>]"
  by (simp add: counter_values_eq)

lemma length_counter_values [simp]: "length (counter_values 0 n) = nat \<lceil>n\<rceil>"
  by (simp add: counter_values_0)

lemma set_counter_values: "set (counter_values 0 n) = {real k | k. real k < n}"
proof -
  have "k < nat \<lceil>n\<rceil> \<longleftrightarrow> real k < n" for k
  proof -
    have "k < nat \<lceil>n\<rceil> \<longleftrightarrow> int k < \<lceil>n\<rceil>" by (simp add: zless_nat_eq_int_zless)
    also have "\<dots> \<longleftrightarrow> real_of_int (int k) < n" by (rule less_ceiling_iff)
    finally show ?thesis by simp
  qed
  then show ?thesis by (auto simp: counter_values_0)
qed

lemma length_rot_symmetries:
  "length (rot_symmetries (x, y, z)) = nat \<lceil>x\<rceil> * nat \<lceil>y\<rceil> * nat \<lceil>z\<rceil>"
  by (simp add: rot_symmetries_def length_concat comp_def sum_list_triv)

lemma set_rot_symmetries:
  "set (rot_symmetries (x, y, z)) =
     {Frame (RotMul (RotMul (RotX (Angle (real ix) x)) (RotY (Angle (real iy) y)))
               (RotZ (Angle (real iz) z)))
      | ix iy iz. real ix < x \<and> real iy < y \<and> real iz < z}"
  (is "?L = ?R")
proof (intro set_eqI iffI)
  fix f
  assume "f \<in> ?L"
  then obtain a b c where "a \<in> set (counter_values 0 x)" "b \<in> set (counter_values 0 y)"
    "c \<in> set (counter_values 0 z)"
    "f = Frame (RotMul (RotMul (RotX (Angle a x)) (RotY (Angle b y))) (RotZ (Angle c z)))"
    by (auto simp: rot_symmetries_def)
  then show "f \<in> ?R" unfolding set_counter_values by blast
next
  fix f
  assume "f \<in> ?R"
  then obtain ix iy iz where i: "real ix < x" "real iy < y" "real iz < z"
    and f: "f = Frame (RotMul (RotMul (RotX (Angle (real ix) x)) (RotY (Angle (real iy) y)))
                         (RotZ (Angle (real iz) z)))"
    by blast
  from i have m: "real ix \<in> set (counter_values 0 x)" "real iy \<in> set (counter_values 0 y)"
    "real iz \<in> set (counter_values 0 z)"
    unfolding set_counter_values by blast+
  have "f \<in> (\<lambda>c. Frame (RotMul (RotMul (RotX (Angle (real ix) x)) (RotY (Angle (real iy) y)))
                         (RotZ (Angle c z)))) ` set (counter_values 0 z)"
    using m(3) f by blast
  then show "f \<in> ?L"
    using m(1,2) by (simp add: rot_symmetries_def) blast
qed

lemma symmetries_new_mate_model:
  "symmetries (new_mate_model k t me) =
     (case elem_symmetry me of
        Some (Some v) \<Rightarrow> if rot_symmetries v = [] then [FrameIdentity] else rot_symmetries v
      | _ \<Rightarrow> [FrameIdentity])"
  by (simp add: new_mate_model_def Let_def split: option.splits)


lemma mm_type_new_mate_model [simp]: "mm_type (new_mate_model k t e) = t"
  by (simp add: new_mate_model_def Let_def)

section \<open>Facts about a discovery cycle\<close>

lemma getStateUpdate_calls_append [simp]:
  "getStateUpdate_calls (xs @ ys) = getStateUpdate_calls xs @ getStateUpdate_calls ys"
  by (induction xs rule: getStateUpdate_calls.induct) simp_all

lemma insert_calls_append [simp]:
  "insert_calls (xs @ ys) = insert_calls xs @ insert_calls ys"
  by (induction xs rule: insert_calls.induct) simp_all

lemma update_calls_append [simp]:
  "update_calls (xs @ ys) = update_calls xs @ update_calls ys"
  by (induction xs rule: update_calls.induct) simp_all

lemma published_append [simp]:
  "published (xs @ ys) = published xs @ published ys"
  by (induction xs rule: published.induct) simp_all

lemma calls_Mate_ctor_events [simp]:
  "getStateUpdate_calls (Mate_ctor_events p) = []"
  "insert_calls (Mate_ctor_events p) = []"
  "published (Mate_ctor_events p) = []"
  "count_list (Mate_ctor_events p) E_lock = 0"
  by (simp_all add: Mate_ctor_events_def)

lemma new_events_append [simp]: "trace s' = trace s @ evs \<Longrightarrow> new_events s s' = evs"
  by (simp add: new_events_def)

text \<open>A Mate with a pending state is left alone by the body of the loop.\<close>

lemma pending_scan_pair:
  assumes r: "scan_pair gsu c (s, msg) = Inr (s', msg')"
    and ok: "table_ok s"
    and d: "deref s p = Some m" and pend: "pending_state m \<noteq> NONE"
  shows "deref s' p = Some m
     \<and> (\<exists>evs. trace s' = trace s @ evs \<and> p \<notin> set (getStateUpdate_calls evs)
              \<and> p \<notin> set (insert_calls evs) \<and> published evs = [])"
proof -
  obtain fa fmp ma mmp where c: "c = (fa, fmp, ma, mmp)" by (cases c) auto
  have r': "scan_pair gsu (fa, fmp, ma, mmp) (s, msg) = Inr (s', msg')" using r c by simp
  show ?thesis
  proof (induction rule: scan_pair_cases [OF r' table_ok_joints [OF ok]])
    case 1
    show ?case using d by simp
  next
    case (2 m')
    with d pend have "(mp_ref fmp, mp_ref mmp) \<noteq> p" by auto
    then show ?case using d by auto
  next
    case (3 mm m' s1)
    with d have "(mp_ref fmp, mp_ref mmp) \<noteq> p" by auto
    then show ?case using d 3 by auto
  qed
qed

lemma pending_cycle:
  assumes r: "getStateUpdates gsu s = Inr s'"
    and ok: "table_ok s"
    and d: "deref s p = Some m" and pend: "pending_state m \<noteq> NONE"
  shows "deref s' p = Some m
     \<and> (\<exists>evs. trace s' = trace s @ evs \<and> p \<notin> set (getStateUpdate_calls evs)
              \<and> p \<notin> set (insert_calls evs))"
proof -
  from r obtain s1 msg where
    f: "fold_err (scan_pair gsu) (candidates (atoms s)) (s, [], []) = Inr (s1, msg)"
    and s': "s' = (if publish_active_mates s1 then emit [E_publish (fst msg) (snd msg)] s1 else s1)"
    by (auto simp: getStateUpdates_def split: sum.splits)
  let ?P = "\<lambda>sm :: soup \<times> mate_list. table_ok (fst sm) \<and> deref (fst sm) p = Some m
     \<and> (\<exists>evs. trace (fst sm) = trace s @ evs \<and> p \<notin> set (getStateUpdate_calls evs)
              \<and> p \<notin> set (insert_calls evs))"
  have "?P (s1, msg)"
  proof (rule fold_err_inv [OF f, where P = ?P])
    show "?P (s, [], [])" using ok d by simp
  next
    fix c sm sm'
    assume P: "?P sm" and st: "scan_pair gsu c sm = Inr sm'"
    from P obtain evs where evs: "trace (fst sm) = trace s @ evs"
      "p \<notin> set (getStateUpdate_calls evs)" "p \<notin> set (insert_calls evs)" by blast
    have st': "scan_pair gsu c (fst sm, snd sm) = Inr (fst sm', snd sm')" using st by simp
    from pending_scan_pair [OF st' _ _ pend, of p] P
    obtain evs' where "deref (fst sm') p = Some m" "trace (fst sm') = trace (fst sm) @ evs'"
      "p \<notin> set (getStateUpdate_calls evs')" "p \<notin> set (insert_calls evs')" by blast
    moreover have "table_ok (fst sm')" using table_ok_scan_pair [OF st'] P by simp
    ultimately show "?P sm'" using evs by auto
  qed
  then show ?thesis by (auto simp: s')
qed

lemma pending_cycles:
  assumes "run (map Discover gs) s = Inr s'"
    and "table_ok s"
    and "deref s p = Some m" and "pending_state m \<noteq> NONE"
  shows "deref s' p = Some m
     \<and> (\<exists>evs. trace s' = trace s @ evs \<and> p \<notin> set (getStateUpdate_calls evs)
              \<and> p \<notin> set (insert_calls evs))"
  using assms(1-3)
proof (induction gs arbitrary: s)
  case Nil
  then show ?case by (simp add: run_def)
next
  case (Cons g gs)
  from Cons.prems(1) obtain s1 where s1: "exec (Discover g) s = Inr s1"
    and r: "run (map Discover gs) s1 = Inr s'"
    by (auto simp: run_def split: sum.splits)
  have "table_ok s1 \<and> deref s1 p = Some m
     \<and> (\<exists>evs. trace s1 = trace s @ evs \<and> p \<notin> set (getStateUpdate_calls evs)
              \<and> p \<notin> set (insert_calls evs))"
  proof (cases "running s")
    case True
    with s1 have c: "getStateUpdates g s = Inr s1" by simp
    from pending_cycle [OF c Cons.prems(2,3) assms(4)] table_ok_cycle [OF c Cons.prems(2)]
    show ?thesis by simp
  next
    case False
    with s1 have "s1 = s" by simp
    with Cons.prems(2,3) show ?thesis by simp
  qed
  then obtain evs where
    a: "table_ok s1" "deref s1 p = Some m" "trace s1 = trace s @ evs"
       "p \<notin> set (getStateUpdate_calls evs)" "p \<notin> set (insert_calls evs)" by blast
  from Cons.IH [OF r a(1,2)] obtain evs' where
    "deref s' p = Some m" "trace s' = trace s1 @ evs'"
       "p \<notin> set (getStateUpdate_calls evs')" "p \<notin> set (insert_calls evs')" by blast
  with a show ?case by auto
qed

lemma lock_discipline_append:
  "lock_discipline h (xs @ ys) =
     (case lock_discipline h xs of None \<Rightarrow> None | Some h' \<Rightarrow> lock_discipline h' ys)"
  by (induction h xs rule: lock_discipline.induct) simp_all

lemma lock_discipline_Mate_ctor_events [simp]:
  "lock_discipline h (Mate_ctor_events p) = Some h"
  by (simp add: Mate_ctor_events_def)

lemma locking_scan_pair:
  assumes r: "scan_pair gsu c (s, msg) = Inr (s', msg')" and ok: "table_ok s"
  shows "\<exists>evs. trace s' = trace s @ evs \<and> lock_discipline False evs = Some False
           \<and> count_list evs E_lock = length (getStateUpdate_calls evs)
           \<and> length (insert_calls evs) \<le> length (getStateUpdate_calls evs)"
proof -
  obtain fa fmp ma mmp where c: "c = (fa, fmp, ma, mmp)" by (cases c) auto
  have r': "scan_pair gsu (fa, fmp, ma, mmp) (s, msg) = Inr (s', msg')" using r c by simp
  show ?thesis
  proof (induction rule: scan_pair_cases [OF r' table_ok_joints [OF ok]])
    case 1
    show ?case by simp
  next
    case (2 m)
    show ?case by (simp add: lock_discipline_append)
  next
    case (3 mm m s1)
    then show ?case by (simp add: lock_discipline_append)
  qed
qed

lemma locking_cycle:
  assumes r: "getStateUpdates gsu s = Inr s'" and ok: "table_ok s"
  shows "\<exists>evs. trace s' = trace s @ evs \<and> lock_discipline False evs = Some False
           \<and> count_list evs E_lock = length (getStateUpdate_calls evs)
           \<and> length (insert_calls evs) \<le> length (getStateUpdate_calls evs)"
proof -
  from r obtain s1 msg where
    f: "fold_err (scan_pair gsu) (candidates (atoms s)) (s, [], []) = Inr (s1, msg)"
    and s': "s' = (if publish_active_mates s1 then emit [E_publish (fst msg) (snd msg)] s1 else s1)"
    by (auto simp: getStateUpdates_def split: sum.splits)
  let ?P = "\<lambda>sm :: soup \<times> mate_list. table_ok (fst sm)
     \<and> (\<exists>evs. trace (fst sm) = trace s @ evs \<and> lock_discipline False evs = Some False
           \<and> count_list evs E_lock = length (getStateUpdate_calls evs)
           \<and> length (insert_calls evs) \<le> length (getStateUpdate_calls evs))"
  have "?P (s1, msg)"
  proof (rule fold_err_inv [OF f, where P = ?P])
    show "?P (s, [], [])" using ok by simp
  next
    fix c sm sm'
    assume P: "?P sm" and st: "scan_pair gsu c sm = Inr sm'"
    from P obtain evs where evs: "trace (fst sm) = trace s @ evs"
      "lock_discipline False evs = Some False"
      "count_list evs E_lock = length (getStateUpdate_calls evs)"
      "length (insert_calls evs) \<le> length (getStateUpdate_calls evs)" by blast
    have st': "scan_pair gsu c (fst sm, snd sm) = Inr (fst sm', snd sm')" using st by simp
    from locking_scan_pair [OF st'] P
    obtain evs' where evs': "trace (fst sm') = trace (fst sm) @ evs'"
      "lock_discipline False evs' = Some False"
      "count_list evs' E_lock = length (getStateUpdate_calls evs')"
      "length (insert_calls evs') \<le> length (getStateUpdate_calls evs')" by blast
    have "trace (fst sm') = trace s @ (evs @ evs')" using evs(1) evs'(1) by simp
    moreover have "lock_discipline False (evs @ evs') = Some False"
      using evs(2) evs'(2) by (simp add: lock_discipline_append)
    moreover have "count_list (evs @ evs') E_lock = length (getStateUpdate_calls (evs @ evs'))"
      using evs(3) evs'(3) by simp
    moreover have "length (insert_calls (evs @ evs')) \<le> length (getStateUpdate_calls (evs @ evs'))"
      using evs(4) evs'(4) by simp
    moreover have "table_ok (fst sm')" using table_ok_scan_pair [OF st'] P by simp
    ultimately show "?P sm'" by blast
  qed
  then obtain evs where evs: "trace s1 = trace s @ evs"
      "lock_discipline False evs = Some False"
      "count_list evs E_lock = length (getStateUpdate_calls evs)"
      "length (insert_calls evs) \<le> length (getStateUpdate_calls evs)" by auto
  show ?thesis
  proof (cases "publish_active_mates s1")
    case True
    have "trace s' = trace s @ (evs @ [E_publish (fst msg) (snd msg)])"
      using True evs(1) by (simp add: s')
    moreover have "lock_discipline False (evs @ [E_publish (fst msg) (snd msg)]) = Some False"
      using evs(2) by (simp add: lock_discipline_append)
    ultimately show ?thesis using evs(3,4) by (intro exI conjI) (assumption, simp_all)
  next
    case False
    with evs show ?thesis by (auto simp: s')
  qed
qed

lemma scan_pair_events:
  assumes r: "scan_pair gsu c (s, msg) = Inr (s', msg')" and ok: "joints_ok s"
  shows "trace s' = trace s @ body_events gsu c s"
proof -
  obtain fa fmp ma mmp where c: "c = (fa, fmp, ma, mmp)" by (cases c) auto
  let ?p = "(mp_ref fmp, mp_ref mmp)"
  show ?thesis
  proof (cases "mp_model fmp \<noteq> mp_model mmp")
    case True
    with r show ?thesis by (simp add: c scan_pair_def body_events_def)
  next
    case False
    then obtain mm where mm: "mp_model fmp = Some mm"
      using r by (cases "mp_model fmp") (simp_all add: c scan_pair_def)
    with False have mm': "mp_model mmp = Some mm" by simp
    show ?thesis
    proof (cases "deref s ?p")
      case None
      define m where "m = Mate_ctor mm fmp mmp fa ma"
      define s1 where "s1 = emit (Mate_ctor_events ?p) (install ?p m s)"
      have d: "deref s1 ?p = Some m" by (simp add: s1_def)
      have j: "mate_joint m \<noteq> None" by (simp add: m_def)
      have "scan_pair gsu c (s, msg) = stage gsu ?p m (s1, msg)"
        using None by (simp add: c scan_pair_def mm mm' find_or_create_eq m_def s1_def)
      also have "\<dots> = Inr (evaluated gsu ?p m s1, listed gsu m s1 msg)"
        using stage_eq [OF d j, of gsu msg] by (simp add: m_def)
      finally have "s' = evaluated gsu ?p m s1" using r by simp
      then show ?thesis
        using None
        by (simp add: c body_events_def mm mm' evaluation_events_def s1_def m_def)
    next
      case (Some m)
      have j: "mate_joint m \<noteq> None" using ok Some by (auto simp: joints_ok_def)
      have "scan_pair gsu c (s, msg) = stage gsu ?p m (s, msg)"
        using Some by (simp add: c scan_pair_def mm mm' find_or_create_eq)
      then have "Inr (s', msg') = (Inr (if pending_state m \<noteq> NONE then (s, msg)
            else (evaluated gsu ?p m s, listed gsu m s msg)) :: error + soup \<times> mate_list)"
        using r by (simp add: stage_eq [OF Some j])
      then show ?thesis
        using Some
        by (cases "pending_state m = NONE")
          (simp_all add: c body_events_def mm mm' evaluation_events_def)
    qed
  qed
qed

lemma fold_scan_events:
  assumes "fold_err (scan_pair gsu) cs sm = Inr sm'" and "table_ok (fst sm)"
  shows "trace (fst sm') = trace (fst sm) @ concat (bodies_events gsu cs sm) \<and> table_ok (fst sm')"
  using assms
proof (induction cs arbitrary: sm)
  case Nil
  then show ?case by simp
next
  case (Cons c cs)
  from Cons.prems(1) obtain sm1 where s1: "scan_pair gsu c sm = Inr sm1"
    and r: "fold_err (scan_pair gsu) cs sm1 = Inr sm'"
    by (cases "scan_pair gsu c sm") simp_all
  have s1': "scan_pair gsu c (fst sm, snd sm) = Inr (fst sm1, snd sm1)" using s1 by simp
  have ok1: "table_ok (fst sm1)" by (rule table_ok_scan_pair [OF s1' Cons.prems(2)])
  have t1: "trace (fst sm1) = trace (fst sm) @ body_events gsu c (fst sm)"
    by (rule scan_pair_events [OF s1' table_ok_joints [OF Cons.prems(2)]])
  from Cons.IH [OF r ok1] show ?case by (simp add: t1 s1)
qed

lemma fold_err_append:
  "fold_err f (xs @ ys) s = (case fold_err f xs s of Inl e \<Rightarrow> Inl e | Inr s' \<Rightarrow> fold_err f ys s')"
  by (induction xs arbitrary: s) (simp_all split: sum.splits)

lemma body_of_cycle:
  assumes r: "fold_err (scan_pair gsu) (pre @ c # post) (s, msg0) = Inr sm'" and ok: "table_ok s"
  shows "\<exists>t msg t' msg'. fold_err (scan_pair gsu) pre (s, msg0) = Inr (t, msg)
           \<and> scan_pair gsu c (t, msg) = Inr (t', msg')
           \<and> new_events t t' = body_events gsu c t"
proof -
  from r obtain t msg where p: "fold_err (scan_pair gsu) pre (s, msg0) = Inr (t, msg)"
    and q: "fold_err (scan_pair gsu) (c # post) (t, msg) = Inr sm'"
    by (cases "fold_err (scan_pair gsu) pre (s, msg0)") (auto simp: fold_err_append)
  from q obtain t' msg' where b: "scan_pair gsu c (t, msg) = Inr (t', msg')"
    by (cases "scan_pair gsu c (t, msg)") auto
  have okt: "table_ok t" using fold_scan_events [OF p] ok by simp
  have "trace t' = trace t @ body_events gsu c t"
    by (rule scan_pair_events [OF b table_ok_joints [OF okt]])
  then have "new_events t t' = body_events gsu c t" by (rule new_events_append)
  with p b show ?thesis by blast
qed

lemma scan_publish:
  assumes "fold_err (scan_pair gsu) cs sm = Inr sm'" and "table_ok (fst sm)"
  shows "publish_active_mates (fst sm') = publish_active_mates (fst sm)"
  using assms
proof (induction cs arbitrary: sm)
  case Nil
  then show ?case by simp
next
  case (Cons c cs)
  from Cons.prems(1) obtain sm1 where s1: "scan_pair gsu c sm = Inr sm1"
    and r: "fold_err (scan_pair gsu) cs sm1 = Inr sm'"
    by (cases "scan_pair gsu c sm") simp_all
  obtain fa fmp ma mmp where c: "c = (fa, fmp, ma, mmp)" by (cases c) auto
  have s1': "scan_pair gsu (fa, fmp, ma, mmp) (fst sm, snd sm) = Inr (fst sm1, snd sm1)"
    using s1 c by simp
  have ok1: "table_ok (fst sm1)"
    by (rule table_ok_scan_pair [OF s1' [folded c] Cons.prems(2)])
  have "publish_active_mates (fst sm1) = publish_active_mates (fst sm)"
    by (induction rule: scan_pair_cases [OF s1' table_ok_joints [OF Cons.prems(2)]]) simp_all
  with Cons.IH [OF r ok1] show ?case by simp
qed

lemma bodies_of_cycle:
  assumes r: "getStateUpdates gsu s = Inr s'" and ok: "table_ok s"
  shows "\<exists>t msg. fold_err (scan_pair gsu) (candidates (atoms s)) (s, [], []) = Inr (t, msg)
           \<and> new_events s t = concat (bodies_events gsu (candidates (atoms s)) (s, [], []))
           \<and> new_events s s' = new_events s t
               @ (if publish_active_mates s then [E_publish (fst msg) (snd msg)] else [])"
proof -
  from r obtain t msg where
    f: "fold_err (scan_pair gsu) (candidates (atoms s)) (s, [], []) = Inr (t, msg)"
    by (cases "fold_err (scan_pair gsu) (candidates (atoms s)) (s, [], [])")
      (auto simp: getStateUpdates_def)
  have s': "s' = (if publish_active_mates t then emit [E_publish (fst msg) (snd msg)] t else t)"
    using r f by (simp add: getStateUpdates_def)
  have tr: "trace t = trace s @ concat (bodies_events gsu (candidates (atoms s)) (s, [], []))"
    using fold_scan_events [OF f] ok by simp
  have pub: "publish_active_mates t = publish_active_mates s"
    using scan_publish [OF f] ok by simp
  show ?thesis
    using f tr by (auto simp: s' pub new_events_def)
qed

lemma deref_agree:
  assumes "deref s' p = deref s p"
  shows "pending_of s' p = pending_of s p" "parent_name s' p = parent_name s p"
    "child_name s' p = child_name s p"
  using assms by (simp_all add: pending_of_def parent_name_def child_name_def)

lemma staged_for_mating_agree:
  assumes "\<forall>p\<in>set (insert_calls evs). deref s' p = deref s p"
  shows "staged_for_mating s' evs = staged_for_mating s evs"
    and "map (parent_name s') (staged_for_mating s evs) = map (parent_name s) (staged_for_mating s evs)"
    and "map (child_name s') (staged_for_mating s evs) = map (child_name s) (staged_for_mating s evs)"
proof -
  have a: "pending_of s' p = pending_of s p \<and> parent_name s' p = parent_name s p
      \<and> child_name s' p = child_name s p" if "p \<in> set (insert_calls evs)" for p
    using assms that deref_agree [of s' p s] by blast
  show "staged_for_mating s' evs = staged_for_mating s evs"
    unfolding staged_for_mating_def by (rule filter_cong) (simp_all add: a)
  show "map (parent_name s') (staged_for_mating s evs) = map (parent_name s) (staged_for_mating s evs)"
    unfolding staged_for_mating_def by (rule map_cong) (simp_all add: a)
  show "map (child_name s') (staged_for_mating s evs) = map (child_name s) (staged_for_mating s evs)"
    unfolding staged_for_mating_def by (rule map_cong) (simp_all add: a)
qed

lemma names_evaluated:
  assumes "mate_joint m \<noteq> None"
  shows "parent_name (evaluated gsu p m s) p = sdf_parent (joint_desc (the (mate_joint m)))"
    and "child_name (evaluated gsu p m s) p = sdf_child (joint_desc (the (mate_joint m)))"
    and "pending_of (evaluated gsu p m s) p = gsu m"
  using assms by (auto simp: parent_name_def child_name_def pending_of_def)

lemma publishing_scan_pair:
  assumes r: "scan_pair gsu c (s, msg) = Inr (s', msg')" and ok: "table_ok s"
    and L: "\<forall>p\<in>set L. pending_of s p \<noteq> NONE"
  shows "(\<forall>p\<in>set L. deref s' p = deref s p)
     \<and> publish_active_mates s' = publish_active_mates s
     \<and> (\<exists>evs. trace s' = trace s @ evs \<and> published evs = []
           \<and> (\<forall>p\<in>set (insert_calls evs). pending_of s' p \<noteq> NONE)
           \<and> msg' = (if publish_active_mates s
                      then (fst msg @ map (parent_name s') (staged_for_mating s' evs),
                            snd msg @ map (child_name s') (staged_for_mating s' evs))
                      else msg))"
proof -
  obtain fa fmp ma mmp where c: "c = (fa, fmp, ma, mmp)" by (cases c) auto
  have r': "scan_pair gsu (fa, fmp, ma, mmp) (s, msg) = Inr (s', msg')" using r c by simp
  let ?q = "(mp_ref fmp, mp_ref mmp)"
  show ?thesis
  proof (induction rule: scan_pair_cases [OF r' table_ok_joints [OF ok]])
    case 1
    have "\<exists>evs. trace s = trace s @ evs \<and> published evs = []
           \<and> (\<forall>p\<in>set (insert_calls evs). pending_of s p \<noteq> NONE)
           \<and> msg = (if publish_active_mates s
                      then (fst msg @ map (parent_name s) (staged_for_mating s evs),
                            snd msg @ map (child_name s) (staged_for_mating s evs))
                      else msg)"
      by (rule exI [of _ "[]"]) (simp add: staged_for_mating_def)
    then show ?case by simp
  next
    case (2 m)
    have q: "?q \<notin> set L" using L 2(1,2) by (auto simp: pending_of_def)
    let ?s = "evaluated gsu ?q m s"
    let ?evs = "[E_lock, E_getStateUpdate ?q] @ (if gsu m = NONE then [] else [E_insert ?q])
         @ [E_unlock]"
    have a: "\<forall>p\<in>set L. deref ?s p = deref s p" using q by auto
    have b: "trace ?s = trace s @ ?evs \<and> published ?evs = []" by simp
    have d: "\<forall>p\<in>set (insert_calls ?evs). pending_of ?s p \<noteq> NONE"
      by (simp add: names_evaluated(3) [OF 2(3)])
    have e: "listed gsu m s msg = (if publish_active_mates s
                      then (fst msg @ map (parent_name ?s) (staged_for_mating ?s ?evs),
                            snd msg @ map (child_name ?s) (staged_for_mating ?s ?evs))
                      else msg)"
      by (simp add: listed_def staged_for_mating_def names_evaluated [OF 2(3)])
    from a b d e show ?case by (intro conjI exI [of _ ?evs]) simp_all
  next
    case (3 mm m s1)
    have q: "?q \<notin> set L" using L 3(1) by (auto simp: pending_of_def)
    have j: "mate_joint m \<noteq> None" using 3(3) by simp
    have pn: "gsu m = NONE \<or> gsu m \<noteq> NONE" by simp
    let ?s = "evaluated gsu ?q m s1"
    let ?evs = "Mate_ctor_events ?q @ [E_lock, E_getStateUpdate ?q]
         @ (if gsu m = NONE then [] else [E_insert ?q]) @ [E_unlock]"
    have a: "\<forall>p\<in>set L. deref ?s p = deref s p" using q 3(4) by auto
    have b: "trace ?s = trace s @ ?evs \<and> published ?evs = []" using 3(4) by simp
    have d: "\<forall>p\<in>set (insert_calls ?evs). pending_of ?s p \<noteq> NONE"
      by (simp add: names_evaluated(3) [OF j])
    have e: "listed gsu m s1 msg = (if publish_active_mates s
                      then (fst msg @ map (parent_name ?s) (staged_for_mating ?s ?evs),
                            snd msg @ map (child_name ?s) (staged_for_mating ?s ?evs))
                      else msg)"
      using 3(4) by (simp add: listed_def staged_for_mating_def names_evaluated [OF j])
    have f: "publish_active_mates ?s = publish_active_mates s" using 3(4) by simp
    from a b d e f show ?case by (intro conjI exI [of _ ?evs]) simp_all
  qed
qed


lemma staged_for_mating_Nil [simp]: "staged_for_mating s [] = []"
  by (simp add: staged_for_mating_def)

lemma staged_for_mating_append:
  "staged_for_mating s (xs @ ys) = staged_for_mating s xs @ staged_for_mating s ys"
  by (simp add: staged_for_mating_def)

lemma publishing_cycle:
  assumes r: "getStateUpdates gsu s = Inr s'" and ok: "table_ok s"
  shows "published (new_events s s') =
     (if publish_active_mates s
      then [(map (parent_name s') (staged_for_mating s' (new_events s s')),
             map (child_name s') (staged_for_mating s' (new_events s s')))]
      else [])"
proof -
  from r obtain s1 msg where
    f: "fold_err (scan_pair gsu) (candidates (atoms s)) (s, [], []) = Inr (s1, msg)"
    and s': "s' = (if publish_active_mates s1 then emit [E_publish (fst msg) (snd msg)] s1 else s1)"
    by (auto simp: getStateUpdates_def split: sum.splits)
  let ?P = "\<lambda>sm :: soup \<times> mate_list. table_ok (fst sm)
     \<and> publish_active_mates (fst sm) = publish_active_mates s
     \<and> (\<exists>evs. trace (fst sm) = trace s @ evs \<and> published evs = []
           \<and> (\<forall>p\<in>set (insert_calls evs). pending_of (fst sm) p \<noteq> NONE)
           \<and> snd sm = (if publish_active_mates s
                      then (map (parent_name (fst sm)) (staged_for_mating (fst sm) evs),
                            map (child_name (fst sm)) (staged_for_mating (fst sm) evs))
                      else ([], [])))"
  have "?P (s1, msg)"
  proof (rule fold_err_inv [OF f, where P = ?P])
    have "\<exists>evs. trace s = trace s @ evs \<and> published evs = []
           \<and> (\<forall>p\<in>set (insert_calls evs). pending_of s p \<noteq> NONE)
           \<and> (([], []) :: mate_list) = (if publish_active_mates s
                      then (map (parent_name s) (staged_for_mating s evs),
                            map (child_name s) (staged_for_mating s evs))
                      else ([], []))"
      by (rule exI [of _ "[]"]) (simp add: staged_for_mating_def)
    then show "?P (s, [], [])" using ok by simp
  next
    fix c sm sm'
    assume P: "?P sm" and st: "scan_pair gsu c sm = Inr sm'"
    obtain t msg1 where sm: "sm = (t, msg1)" by (cases sm) auto
    obtain t' msg2 where sm': "sm' = (t', msg2)" by (cases sm') auto
    from P sm obtain evs where okt: "table_ok t"
      and pub: "publish_active_mates t = publish_active_mates s"
      and evs: "trace t = trace s @ evs" "published evs = []"
        "\<forall>p\<in>set (insert_calls evs). pending_of t p \<noteq> NONE"
      and m1: "msg1 = (if publish_active_mates s
                      then (map (parent_name t) (staged_for_mating t evs),
                            map (child_name t) (staged_for_mating t evs))
                      else ([], []))"
      by auto
    have st': "scan_pair gsu c (t, msg1) = Inr (t', msg2)" using st sm sm' by simp
    from publishing_scan_pair [OF st' okt evs(3)] obtain evs' where
      agree: "\<forall>p\<in>set (insert_calls evs). deref t' p = deref t p"
      and pub': "publish_active_mates t' = publish_active_mates t"
      and evs': "trace t' = trace t @ evs'" "published evs' = []"
        "\<forall>p\<in>set (insert_calls evs'). pending_of t' p \<noteq> NONE"
      and m2: "msg2 = (if publish_active_mates t
                      then (fst msg1 @ map (parent_name t') (staged_for_mating t' evs'),
                            snd msg1 @ map (child_name t') (staged_for_mating t' evs'))
                      else msg1)"
      by blast
    have pend: "\<forall>p\<in>set (insert_calls (evs @ evs')). pending_of t' p \<noteq> NONE"
    proof
      fix p
      assume "p \<in> set (insert_calls (evs @ evs'))"
      then consider "p \<in> set (insert_calls evs)" | "p \<in> set (insert_calls evs')" by auto
      then show "pending_of t' p \<noteq> NONE"
      proof cases
        case 1
        with agree have "deref t' p = deref t p" by blast
        then have "pending_of t' p = pending_of t p" by (rule deref_agree(1))
        with evs(3) 1 show ?thesis by simp
      next
        case 2
        with evs'(3) show ?thesis by blast
      qed
    qed
    have names: "msg2 = (if publish_active_mates s
                      then (map (parent_name t') (staged_for_mating t' (evs @ evs')),
                            map (child_name t') (staged_for_mating t' (evs @ evs')))
                      else ([], []))"
      using m1 m2 pub staged_for_mating_agree [OF agree]
      by (simp add: staged_for_mating_append)
    have "trace t' = trace s @ (evs @ evs') \<and> published (evs @ evs') = []"
      using evs evs' by simp
    with pend names have Q: "\<exists>es. trace t' = trace s @ es \<and> published es = []
           \<and> (\<forall>p\<in>set (insert_calls es). pending_of t' p \<noteq> NONE)
           \<and> msg2 = (if publish_active_mates s
                      then (map (parent_name t') (staged_for_mating t' es),
                            map (child_name t') (staged_for_mating t' es))
                      else ([], []))"
      by blast
    show "?P sm'"
      unfolding sm' fst_conv snd_conv
    proof (intro conjI)
      show "table_ok t'" by (rule table_ok_scan_pair [OF st' okt])
      show "publish_active_mates t' = publish_active_mates s" using pub pub' by simp
      show "\<exists>evs. trace t' = trace s @ evs \<and> published evs = []
           \<and> (\<forall>p\<in>set (insert_calls evs). pending_of t' p \<noteq> NONE)
           \<and> msg2 = (if publish_active_mates s
                      then (map (parent_name t') (staged_for_mating t' evs),
                            map (child_name t') (staged_for_mating t' evs))
                      else ([], []))"
        by (rule Q)
    qed
  qed
  then obtain evs where pub: "publish_active_mates s1 = publish_active_mates s"
      and evs: "trace s1 = trace s @ evs" "published evs = []"
      and m: "msg = (if publish_active_mates s
                      then (map (parent_name s1) (staged_for_mating s1 evs),
                            map (child_name s1) (staged_for_mating s1 evs))
                      else ([], []))"
    by auto
  show ?thesis
  proof (cases "publish_active_mates s")
    case True
    have t: "trace s' = trace s @ (evs @ [E_publish (fst msg) (snd msg)])"
      using True pub evs(1) by (simp add: s')
    have d: "staged_for_mating s' (evs @ [E_publish a b]) = staged_for_mating s1 evs" for a b
      using True pub by (simp add: s' staged_for_mating_def pending_of_def)
    have n: "parent_name s' = parent_name s1" "child_name s' = child_name s1"
      using True pub by (simp_all add: s' parent_name_def child_name_def fun_eq_iff)
    show ?thesis
      using True m evs(2) by (simp add: new_events_append [OF t] d n)
  next
    case False
    with pub evs show ?thesis by (simp add: s')
  qed
qed

section \<open>The small scene, evaluated\<close>

lemma demo_Load: "Load demo_links demo_scene AssemblySoup = Inr demo_loaded"
proof -
  have "\<not> isl (Load demo_links demo_scene AssemblySoup)" by code_simp
  then show ?thesis by (simp add: demo_loaded_def)
qed

lemma demo_ticked_run: "run [Tick True] demo_loaded = Inr demo_ticked"
  by (simp add: run_def demo_ticked_def)

lemma table_ok_demo_ticked: "table_ok demo_ticked"
  by (rule table_ok_run [OF demo_ticked_run table_ok_Load [OF demo_Load]])

lemma atoms_ok_demo_ticked: "atoms_ok demo_ticked"
  using atoms_ok_Load [OF demo_Load] by (simp add: demo_ticked_def atoms_ok_def)

lemma demo_cycle: "getStateUpdates request_mate demo_ticked = Inr demo_staged"
  using cycle_total [OF table_ok_demo_ticked atoms_ok_demo_ticked, of request_mate]
  by (auto simp: demo_staged_def)

lemma demo_staged_run: "run [Tick True, Discover request_mate] demo_loaded = Inr demo_staged"
  by (simp add: run_def demo_cycle [unfolded demo_ticked_def])

lemma demo_mated_run:
  "run [Tick True, Discover request_mate, Tick True] demo_loaded = Inr demo_mated"
  by (simp add: run_def demo_cycle [unfolded demo_ticked_def] demo_mated_def)

lemma table_ok_demo_staged: "table_ok demo_staged"
  by (rule table_ok_run [OF demo_staged_run table_ok_Load [OF demo_Load]])

lemma atoms_ok_demo_staged: "atoms_ok demo_staged"
  using cycle_total [OF table_ok_demo_ticked atoms_ok_demo_ticked, of request_mate]
    atoms_ok_demo_ticked
  by (auto simp: demo_cycle atoms_ok_def)

lemma table_ok_demo_mated: "table_ok demo_mated"
  by (rule table_ok_run [OF demo_mated_run table_ok_Load [OF demo_Load]])

lemma atoms_ok_demo_mated: "atoms_ok demo_mated"
  using atoms_ok_demo_staged by (simp add: demo_mated_def atoms_ok_def)

lemma demo_quiet_cycle: "getStateUpdates no_change demo_mated = Inr demo_quiet"
  using cycle_total [OF table_ok_demo_mated atoms_ok_demo_mated, of no_change]
  by (auto simp: demo_quiet_def)

lemma demo_quiet_run: "run demo_steps demo_loaded = Inr demo_quiet"
  using demo_quiet_cycle [unfolded demo_mated_def]
  by (simp add: run_def demo_steps_def demo_cycle [unfolded demo_ticked_def])

lemma demo_loaded_observed:
  "observe [(0, 2), (1, 2)] demo_loaded =
     ([None, None], [], [], True,
      [E_gzerr ''Unknown gender: neuter'', E_ConnectWorldUpdateBegin])"
  by code_simp

lemma demo_ticked_observed:
  "observe [(0, 2), (1, 2)] demo_ticked =
     ([None, None], [], [], True,
      [E_gzerr ''Unknown gender: neuter'', E_ConnectWorldUpdateBegin,
       E_start_thread, E_try_to_lock True, E_unlock])"
  by code_simp

lemma demo_staged_observed:
  "observe [(0, 2), (1, 2)] demo_staged =
     ([Some (UNMATED, MATED), Some (UNMATED, MATED)], [(1, 2), (0, 2)], [], True,
      [E_gzerr ''Unknown gender: neuter'', E_ConnectWorldUpdateBegin,
       E_start_thread, E_try_to_lock True, E_unlock,
       E_Mate_ctor (0, 2), E_CreateJoint (0, 2), E_JointLoad (0, 2),
       E_JointInit (0, 2), E_JointDetach (0, 2), E_lock,
       E_getStateUpdate (0, 2), E_insert (0, 2), E_unlock, E_Mate_ctor (1, 2),
       E_CreateJoint (1, 2), E_JointLoad (1, 2), E_JointInit (1, 2),
       E_JointDetach (1, 2), E_lock, E_getStateUpdate (1, 2), E_insert (1, 2),
       E_unlock, E_publish [''part_1'', ''part_1''] [''part_2'', ''part_2'']])"
  by code_simp

lemma demo_mated_observed:
  "observe [(0, 2), (1, 2)] demo_mated =
     ([Some (MATED, NONE), Some (MATED, NONE)], [], [], True,
      [E_gzerr ''Unknown gender: neuter'', E_ConnectWorldUpdateBegin,
       E_start_thread, E_try_to_lock True, E_unlock,
       E_Mate_ctor (0, 2), E_CreateJoint (0, 2), E_JointLoad (0, 2),
       E_JointInit (0, 2), E_JointDetach (0, 2), E_lock,
       E_getStateUpdate (0, 2), E_insert (0, 2), E_unlock, E_Mate_ctor (1, 2),
       E_CreateJoint (1, 2), E_JointLoad (1, 2), E_JointInit (1, 2),
       E_JointDetach (1, 2), E_lock, E_getStateUpdate (1, 2), E_insert (1, 2),
       E_unlock, E_publish [''part_1'', ''part_1''] [''part_2'', ''part_2''],
       E_try_to_lock True, E_updateState (1, 2), E_updateState (0, 2), E_unlock])"
  by code_simp

lemma demo_quiet_observed:
  "observe [(0, 2), (1, 2)] demo_quiet =
     ([Some (MATED, NONE), Some (MATED, NONE)], [], [], True,
      [E_gzerr ''Unknown gender: neuter'', E_ConnectWorldUpdateBegin,
       E_start_thread, E_try_to_lock True, E_unlock,
       E_Mate_ctor (0, 2), E_CreateJoint (0, 2), E_JointLoad (0, 2),
       E_JointInit (0, 2), E_JointDetach (0, 2), E_lock,
       E_getStateUpdate (0, 2), E_insert (0, 2), E_unlock, E_Mate_ctor (1, 2),
       E_CreateJoint (1, 2), E_JointLoad (1, 2), E_JointInit (1, 2),
       E_JointDetach (1, 2), E_lock, E_getStateUpdate (1, 2), E_insert (1, 2),
       E_unlock, E_publish [''part_1'', ''part_1''] [''part_2'', ''part_2''],
       E_try_to_lock True, E_updateState (1, 2), E_updateState (0, 2), E_unlock,
       E_lock, E_getStateUpdate (0, 2), E_unlock, E_lock, E_getStateUpdate (1, 2), E_unlock,
       E_lock, E_getStateUpdate (0, 2), E_unlock, E_lock, E_getStateUpdate (1, 2), E_unlock,
       E_publish [] []])"
  by code_simp

lemma demo_staged_facts:
  "mates_to_update demo_staged = [(1, 2), (0, 2)]"
  "mates demo_staged = []"
  "publish_active_mates demo_staged"
  "\<exists>m. deref demo_staged (0, 2) = Some m \<and> state m = UNMATED \<and> pending_state m = MATED"
  "\<exists>m. deref demo_staged (1, 2) = Some m \<and> state m = UNMATED \<and> pending_state m = MATED"
  using demo_staged_observed by (auto simp: observe_def)

lemma demo_mated_facts:
  "mates_to_update demo_mated = []"
  "mates demo_mated = []"
  "publish_active_mates demo_mated"
  "\<exists>m. deref demo_mated (0, 2) = Some m \<and> state m = MATED \<and> pending_state m = NONE"
  "\<exists>m. deref demo_mated (1, 2) = Some m \<and> state m = MATED \<and> pending_state m = NONE"
  using demo_mated_observed by (auto simp: observe_def)

lemma demo_quiet_facts:
  "\<exists>m. deref demo_quiet (0, 2) = Some m \<and> state m = MATED \<and> pending_state m = NONE"
  "\<exists>m. deref demo_quiet (1, 2) = Some m \<and> state m = MATED \<and> pending_state m = NONE"
  using demo_quiet_observed by (auto simp: observe_def)

lemma demo_staged_events:
  "new_events demo_ticked demo_staged =
     [E_Mate_ctor (0, 2), E_CreateJoint (0, 2), E_JointLoad (0, 2),
       E_JointInit (0, 2), E_JointDetach (0, 2), E_lock,
       E_getStateUpdate (0, 2), E_insert (0, 2), E_unlock, E_Mate_ctor (1, 2),
       E_CreateJoint (1, 2), E_JointLoad (1, 2), E_JointInit (1, 2),
       E_JointDetach (1, 2), E_lock, E_getStateUpdate (1, 2), E_insert (1, 2),
       E_unlock, E_publish [''part_1'', ''part_1''] [''part_2'', ''part_2'']]"
  using demo_ticked_observed demo_staged_observed by (simp add: observe_def new_events_def)

lemma demo_quiet_events:
  "new_events demo_mated demo_quiet =
     [E_lock, E_getStateUpdate (0, 2), E_unlock, E_lock, E_getStateUpdate (1, 2), E_unlock,
       E_lock, E_getStateUpdate (0, 2), E_unlock, E_lock, E_getStateUpdate (1, 2), E_unlock,
       E_publish [] []]"
  using demo_mated_observed demo_quiet_observed by (simp add: observe_def new_events_def)

lemma demo_models_loaded_models:
  "mate_models demo_models_loaded
     = [(''peg'', Some (new_mate_model ProximityMateModel ''peg'' demo_mate_elem))]"
  "allocated demo_models_loaded = 0"
  by (simp_all add: demo_models_loaded_def demo_scene_def demo_scene_with_def configure_def
        AssemblySoup_def Let_def demo_mate_elem_def)

lemma x_only_loaded_models:
  "mate_models x_only_loaded
     = [(''peg'', Some (new_mate_model ProximityMateModel ''peg'' x_only_elem))]"
  "allocated x_only_loaded = 0"
  by (simp_all add: x_only_loaded_def x_only_elem_def demo_mate_elem_def demo_scene_def
        AssemblySoup_def Let_def)

lemma demo_rot_symmetries:
  "rot_symmetries (2, 1, 1) =
     [Frame (RotMul (RotMul (RotX (Angle 0 2)) (RotY (Angle 0 1))) (RotZ (Angle 0 1))),
      Frame (RotMul (RotMul (RotX (Angle 1 2)) (RotY (Angle 0 1))) (RotZ (Angle 0 1)))]"
  by code_simp

section \<open>The per-tick update\<close>

text \<open>
  The set \<^verbatim>\<open>mates_\<close> that the tick handler walks is written nowhere: not by
  \<^verbatim>\<open>Load\<close>, not by the discovery cycle, not by the handler. So it is empty in every
  state that a run from a loaded scene reaches, and no run records a call of the
  per-tick update.
\<close>

lemma scan_pair_quiet:
  assumes r: "scan_pair gsu c (s, msg) = Inr (s', msg')" and ok: "table_ok s"
  shows "mates s' = mates s \<and> (\<exists>evs. trace s' = trace s @ evs \<and> update_calls evs = [])"
proof -
  obtain fa fmp ma mmp where c: "c = (fa, fmp, ma, mmp)" by (cases c) auto
  have r': "scan_pair gsu (fa, fmp, ma, mmp) (s, msg) = Inr (s', msg')" using r c by simp
  show ?thesis
  proof (induction rule: scan_pair_cases [OF r' table_ok_joints [OF ok]])
    case 1
    show ?case by simp
  next
    case (2 m)
    show ?case by simp
  next
    case (3 mm m s1)
    then show ?case by (simp add: Mate_ctor_events_def)
  qed
qed

lemma cycle_quiet:
  assumes r: "getStateUpdates gsu s = Inr s'" and ok: "table_ok s"
  shows "mates s' = mates s \<and> update_calls (trace s') = update_calls (trace s)"
proof -
  from r obtain s1 msg where
    f: "fold_err (scan_pair gsu) (candidates (atoms s)) (s, [], []) = Inr (s1, msg)"
    and s': "s' = (if publish_active_mates s1 then emit [E_publish (fst msg) (snd msg)] s1 else s1)"
    by (auto simp: getStateUpdates_def split: sum.splits)
  let ?P = "\<lambda>sm :: soup \<times> mate_list. table_ok (fst sm) \<and> mates (fst sm) = mates s
     \<and> update_calls (trace (fst sm)) = update_calls (trace s)"
  have "?P (s1, msg)"
  proof (rule fold_err_inv [OF f, where P = ?P])
    show "?P (s, [], [])" using ok by simp
  next
    fix c sm sm'
    assume P: "?P sm" and st: "scan_pair gsu c sm = Inr sm'"
    have st': "scan_pair gsu c (fst sm, snd sm) = Inr (fst sm', snd sm')" using st by simp
    from scan_pair_quiet [OF st'] P table_ok_scan_pair [OF st']
    show "?P sm'" by auto
  qed
  then show ?thesis by (simp add: s')
qed

lemma update_calls_load_events: "list_all load_event es \<Longrightarrow> update_calls es = []"
  by (induction es rule: update_calls.induct) simp_all

lemma update_calls_map_other [simp]: "update_calls (map E_updateState ps) = []"
  by (induction ps) simp_all

lemma update_calls_map [simp]: "update_calls (map E_update ps) = ps"
  by (induction ps) simp_all

lemma update_never_called:
  assumes "Load links sdf AssemblySoup = Inr s0" and "run steps s0 = Inr s"
  shows "mates s = [] \<and> update_calls (trace s) = []"
proof -
  let ?P = "\<lambda>t. table_ok t \<and> mates t = [] \<and> update_calls (trace t) = []"
  from untouched_Load [OF assms(1)] have "mates s0 = [] \<and> update_calls (trace s0) = []"
    by (auto simp: untouched_def AssemblySoup_def update_calls_load_events)
  then have P0: "?P s0" using table_ok_Load [OF assms(1)] by simp
  have r: "fold_err exec steps s0 = Inr s" using assms(2) by (simp add: run_def)
  have "?P s"
  proof (rule fold_err_inv [OF r, where P = ?P])
    show "?P s0" by (rule P0)
  next
    fix st t t'
    assume P: "?P t" and e: "exec st t = Inr t'"
    show "?P t'"
    proof (cases st)
      case (Discover gsu)
      show ?thesis
      proof (cases "running t")
        case True
        with e Discover have c: "getStateUpdates gsu t = Inr t'" by simp
        from cycle_quiet [OF c] table_ok_cycle [OF c] P show ?thesis by simp
      next
        case False
        with e Discover P show ?thesis by simp
      qed
    next
      case (Tick free)
      with e have "t' = OnUpdate free t" by simp
      with P show ?thesis by (simp add: table_ok_OnUpdate trace_OnUpdate)
    qed
  qed
  then show ?thesis by simp
qed

text \<open>
  C1 on the small scene. After the first tick, a cycle in which both pairs ask to mate
  and a tick that applies the transitions, both Mates are in state \<open>MATED\<close>; the next tick, with the
  lock or without, calls the per-tick update on neither.
\<close>

theorem active_mate_gets_no_update:
  "Load demo_links demo_scene AssemblySoup = Inr demo_loaded
   \<and> run [Tick True, Discover request_mate, Tick True] demo_loaded = Inr demo_mated
   \<and> map_option state (deref demo_mated (0, 2)) = Some MATED
   \<and> map_option state (deref demo_mated (1, 2)) = Some MATED
   \<and> update_calls (new_events demo_mated (OnUpdate True demo_mated)) = []
   \<and> update_calls (new_events demo_mated (OnUpdate False demo_mated)) = []"
  using demo_Load demo_mated_run demo_mated_facts
  by (auto simp: new_events_def trace_OnUpdate)

section \<open>The female mate points of a symmetric mate model\<close>

text \<open>
  C2, as the code has it. Let a mate model be made from an element by the code of
  \<^verbatim>\<open>Load\<close>, and let a declared female mate point name its type. Then the loop
  appends to the female mate points of the atom model one instance for each symmetry of
  the model, in their order, each with the declared pose composed with that symmetry,
  with this model and with the next free ids. When the three components of
  \<^verbatim>\<open>rot\<close> are all positive, the symmetries are the frames of the rotations about
  the three axes by \<open>ix\<close> of \<open>nx\<close>, \<open>iy\<close> of \<open>ny\<close> and \<open>iz\<close> of \<open>nz\<close> parts of a
  turn, for all counters \<open>ix < nx\<close>, \<open>iy < ny\<close>, \<open>iz < nz\<close>: for whole numbers there
  are \<open>nx * ny * nz\<close> instances. When a component is zero or negative, whatever the
  other two are, or when no symmetry or no \<^verbatim>\<open>rot\<close> is given, the loops add no
  frame, the only symmetry is the identity and there is exactly one instance. The
  counters of the loops are doubles, which count as the reals do up to \<open>2 ^ 53\<close>; the
  components are taken in that range.
\<close>

theorem symmetry_instances:
  assumes "iequals (mpe_gender e) ''female''"
    and "map_of (mate_models s) (mpe_type e) = Some (Some mm)"
    and "mm = new_mate_model k t me"
    and "case elem_symmetry me of
           Some (Some (nx, ny, nz)) \<Rightarrow> nx \<le> 2 ^ 53 \<and> ny \<le> 2 ^ 53 \<and> nz \<le> 2 ^ 53
         | _ \<Rightarrow> True"
  shows "\<exists>new. load_mate_points (e # es) (am, s) =
             load_mate_points es
               (am\<lparr>female_mate_points := female_mate_points am @ new\<rparr>,
                s\<lparr>allocated := allocated s + length new\<rparr>)
       \<and> length new =
           (case elem_symmetry me of
              Some (Some (nx, ny, nz)) \<Rightarrow>
                if 0 < nx \<and> 0 < ny \<and> 0 < nz
                then nat \<lceil>nx\<rceil> * nat \<lceil>ny\<rceil> * nat \<lceil>nz\<rceil> else 1
            | _ \<Rightarrow> 1)
       \<and> (\<forall>a b c. elem_symmetry me = Some (Some (real a, real b, real c))
              \<and> 0 < a \<and> 0 < b \<and> 0 < c \<longrightarrow> length new = a * b * c)
       \<and> map mp_pose new = map (FrameMul (PoseElem (mpe_pose e))) (symmetries mm)
       \<and> symmetries mm =
           (case elem_symmetry me of
              Some (Some (nx, ny, nz)) \<Rightarrow>
                if 0 < nx \<and> 0 < ny \<and> 0 < nz
                then rot_symmetries (nx, ny, nz) else [FrameIdentity]
            | _ \<Rightarrow> [FrameIdentity])
       \<and> (\<forall>nx ny nz. set (rot_symmetries (nx, ny, nz)) =
             {Frame (RotMul (RotMul (RotX (Angle (real ix) nx)) (RotY (Angle (real iy) ny)))
                       (RotZ (Angle (real iz) nz)))
              | ix iy iz. real ix < nx \<and> real iy < ny \<and> real iz < nz})
       \<and> list_all (\<lambda>p. mp_model p = Some mm) new
       \<and> map mp_id new =
           [length (female_mate_points am) + length (male_mate_points am)
            ..< length (female_mate_points am) + length (male_mate_points am) + length new]"
proof -
  let ?n = "length (female_mate_points am) + length (male_mate_points am)"
  let ?new = "female_instances mm (PoseElem (mpe_pose e)) (allocated s) ?n (symmetries mm)"
  have at: "mate_models_at (mpe_type e) s = (Some mm, s)"
    using assms(2) by (simp add: mate_models_at_def)
  have step: "load_mate_points (e # es) (am, s) =
             load_mate_points es
               (am\<lparr>female_mate_points := female_mate_points am @ ?new\<rparr>,
                s\<lparr>allocated := allocated s + length ?new\<rparr>)"
    using assms(1) at by (simp add: add_female_mate_points_eq female_instances_props(1))
  have empty: "rot_symmetries (nx, ny, nz) = [] \<longleftrightarrow> \<not> (0 < nx \<and> 0 < ny \<and> 0 < nz)"
    for nx ny nz
  proof -
    have "rot_symmetries (nx, ny, nz) = [] \<longleftrightarrow> nat \<lceil>nx\<rceil> * nat \<lceil>ny\<rceil> * nat \<lceil>nz\<rceil> = 0"
      using length_rot_symmetries [of nx ny nz] by (metis length_0_conv)
    then show ?thesis by (auto simp: ceiling_le_iff not_less)
  qed
  have sym: "symmetries mm =
           (case elem_symmetry me of
              Some (Some (nx, ny, nz)) \<Rightarrow>
                if 0 < nx \<and> 0 < ny \<and> 0 < nz
                then rot_symmetries (nx, ny, nz) else [FrameIdentity]
            | _ \<Rightarrow> [FrameIdentity])"
    unfolding assms(3) symmetries_new_mate_model
    by (auto simp: empty split: option.splits)
  have len: "length ?new =
           (case elem_symmetry me of
              Some (Some (nx, ny, nz)) \<Rightarrow>
                if 0 < nx \<and> 0 < ny \<and> 0 < nz
                then nat \<lceil>nx\<rceil> * nat \<lceil>ny\<rceil> * nat \<lceil>nz\<rceil> else 1
            | _ \<Rightarrow> 1)"
    unfolding female_instances_props(1) sym
    by (auto simp: length_rot_symmetries split: option.splits)
  have whole: "length ?new = a * b * c"
    if "elem_symmetry me = Some (Some (real a, real b, real c)) \<and> 0 < a \<and> 0 < b \<and> 0 < c"
    for a b c
    using that len by simp
  show ?thesis
  proof (intro exI [of _ ?new] conjI allI impI)
    show "load_mate_points (e # es) (am, s) =
             load_mate_points es
               (am\<lparr>female_mate_points := female_mate_points am @ ?new\<rparr>,
                s\<lparr>allocated := allocated s + length ?new\<rparr>)"
      by (rule step)
    show "length ?new =
           (case elem_symmetry me of
              Some (Some (nx, ny, nz)) \<Rightarrow>
                if 0 < nx \<and> 0 < ny \<and> 0 < nz
                then nat \<lceil>nx\<rceil> * nat \<lceil>ny\<rceil> * nat \<lceil>nz\<rceil> else 1
            | _ \<Rightarrow> 1)"
      by (rule len)
    show "length ?new = a * b * c"
      if "elem_symmetry me = Some (Some (real a, real b, real c)) \<and> 0 < a \<and> 0 < b \<and> 0 < c"
      for a b c
      using that by (rule whole)
    show "map mp_pose ?new = map (FrameMul (PoseElem (mpe_pose e))) (symmetries mm)"
      by (rule female_instances_props(2))
    show "symmetries mm =
           (case elem_symmetry me of
              Some (Some (nx, ny, nz)) \<Rightarrow>
                if 0 < nx \<and> 0 < ny \<and> 0 < nz
                then rot_symmetries (nx, ny, nz) else [FrameIdentity]
            | _ \<Rightarrow> [FrameIdentity])"
      by (rule sym)
    show "set (rot_symmetries (nx, ny, nz)) =
             {Frame (RotMul (RotMul (RotX (Angle (real ix) nx)) (RotY (Angle (real iy) ny)))
                       (RotZ (Angle (real iz) nz)))
              | ix iy iz. real ix < nx \<and> real iy < ny \<and> real iz < nz}" for nx ny nz
      by (rule set_rot_symmetries)
    show "list_all (\<lambda>p. mp_model p = Some mm) ?new"
      by (rule female_instances_props(5))
    show "map mp_id ?new = [?n..<?n + length ?new]"
      by (simp add: female_instances_props(1,3))
  qed
qed

text \<open>
  The theorem at the element of the small scene, with two divisions about the first axis
  and one about the others, and at the element with four divisions about the first axis
  and none given for the others: two instances there, one instance with the identity
  here.
\<close>

theorem symmetry_instances_witness:
  "iequals (mpe_gender demo_female) ''female''
   \<and> map_of (mate_models demo_models_loaded) (mpe_type demo_female)
       = Some (Some (new_mate_model ProximityMateModel ''peg'' demo_mate_elem))
   \<and> map_of (mate_models x_only_loaded) (mpe_type demo_female)
       = Some (Some (new_mate_model ProximityMateModel ''peg'' x_only_elem))
   \<and> (\<exists>new. load_mate_points [demo_female] (demo_atom_model, demo_models_loaded)
                = Inr (demo_atom_model\<lparr>female_mate_points := new\<rparr>,
                       demo_models_loaded\<lparr>allocated := length new\<rparr>)
         \<and> length new = 2
         \<and> map mp_pose new =
             [FrameMul (PoseElem ''0 0 0 0 0 0'')
                (Frame (RotMul (RotMul (RotX (Angle 0 2)) (RotY (Angle 0 1))) (RotZ (Angle 0 1)))),
              FrameMul (PoseElem ''0 0 0 0 0 0'')
                (Frame (RotMul (RotMul (RotX (Angle 1 2)) (RotY (Angle 0 1))) (RotZ (Angle 0 1))))])
   \<and> (\<exists>new. load_mate_points [demo_female] (demo_atom_model, x_only_loaded)
                = Inr (demo_atom_model\<lparr>female_mate_points := new\<rparr>,
                       x_only_loaded\<lparr>allocated := length new\<rparr>)
         \<and> length new = 1
         \<and> map mp_pose new = [FrameMul (PoseElem ''0 0 0 0 0 0'') FrameIdentity])"
proof -
  have h1: "iequals (mpe_gender demo_female) ''female''"
    by (simp add: demo_female_def iequals_def toupper_def)
  have h2: "map_of (mate_models demo_models_loaded) (mpe_type demo_female)
       = Some (Some (new_mate_model ProximityMateModel ''peg'' demo_mate_elem))"
    by (simp add: demo_models_loaded_models demo_female_def)
  have h3: "elem_symmetry demo_mate_elem = Some (Some (2, 1, 1))"
    by (simp add: demo_mate_elem_def demo_scene_def)
  have g2: "map_of (mate_models x_only_loaded) (mpe_type demo_female)
       = Some (Some (new_mate_model ProximityMateModel ''peg'' x_only_elem))"
    by (simp add: x_only_loaded_models demo_female_def)
  have g3: "elem_symmetry x_only_elem = Some (Some (4, 0, 0))"
    by (simp add: x_only_elem_def)
  have h4: "case elem_symmetry demo_mate_elem of
           Some (Some (nx, ny, nz)) \<Rightarrow> nx \<le> 2 ^ 53 \<and> ny \<le> 2 ^ 53 \<and> nz \<le> 2 ^ 53
         | _ \<Rightarrow> True"
    by (simp add: h3)
  have g4: "case elem_symmetry x_only_elem of
           Some (Some (nx, ny, nz)) \<Rightarrow> nx \<le> 2 ^ 53 \<and> ny \<le> 2 ^ 53 \<and> nz \<le> 2 ^ 53
         | _ \<Rightarrow> True"
    by (simp add: g3)
  from symmetry_instances [OF h1 h2 refl h4, of "[]" demo_atom_model]
  obtain new where n:
    "load_mate_points [demo_female] (demo_atom_model, demo_models_loaded) =
       load_mate_points []
         (demo_atom_model\<lparr>female_mate_points := female_mate_points demo_atom_model @ new\<rparr>,
          demo_models_loaded\<lparr>allocated := allocated demo_models_loaded + length new\<rparr>)"
    "length new = (case elem_symmetry demo_mate_elem of
              Some (Some (nx, ny, nz)) \<Rightarrow>
                if 0 < nx \<and> 0 < ny \<and> 0 < nz
                then nat \<lceil>nx\<rceil> * nat \<lceil>ny\<rceil> * nat \<lceil>nz\<rceil> else 1
            | _ \<Rightarrow> 1)"
    "map mp_pose new = map (FrameMul (PoseElem (mpe_pose demo_female)))
        (symmetries (new_mate_model ProximityMateModel ''peg'' demo_mate_elem))"
    "symmetries (new_mate_model ProximityMateModel ''peg'' demo_mate_elem) =
           (case elem_symmetry demo_mate_elem of
              Some (Some (nx, ny, nz)) \<Rightarrow>
                if 0 < nx \<and> 0 < ny \<and> 0 < nz
                then rot_symmetries (nx, ny, nz) else [FrameIdentity]
            | _ \<Rightarrow> [FrameIdentity])"
    by blast
  have f1: "load_mate_points [demo_female] (demo_atom_model, demo_models_loaded)
                = Inr (demo_atom_model\<lparr>female_mate_points := new\<rparr>,
                       demo_models_loaded\<lparr>allocated := length new\<rparr>)"
    using n(1) by (simp add: demo_atom_model_def demo_models_loaded_models(2))
  have f2: "length new = 2" using n(2) by (simp add: h3)
  have f3: "map mp_pose new =
             [FrameMul (PoseElem ''0 0 0 0 0 0'')
                (Frame (RotMul (RotMul (RotX (Angle 0 2)) (RotY (Angle 0 1))) (RotZ (Angle 0 1)))),
              FrameMul (PoseElem ''0 0 0 0 0 0'')
                (Frame (RotMul (RotMul (RotX (Angle 1 2)) (RotY (Angle 0 1))) (RotZ (Angle 0 1))))]"
    using n(3,4) by (simp add: h3 demo_rot_symmetries demo_female_def)
  from symmetry_instances [OF h1 g2 refl g4, of "[]" demo_atom_model]
  obtain new' where n':
    "load_mate_points [demo_female] (demo_atom_model, x_only_loaded) =
       load_mate_points []
         (demo_atom_model\<lparr>female_mate_points := female_mate_points demo_atom_model @ new'\<rparr>,
          x_only_loaded\<lparr>allocated := allocated x_only_loaded + length new'\<rparr>)"
    "length new' = (case elem_symmetry x_only_elem of
              Some (Some (nx, ny, nz)) \<Rightarrow>
                if 0 < nx \<and> 0 < ny \<and> 0 < nz
                then nat \<lceil>nx\<rceil> * nat \<lceil>ny\<rceil> * nat \<lceil>nz\<rceil> else 1
            | _ \<Rightarrow> 1)"
    "map mp_pose new' = map (FrameMul (PoseElem (mpe_pose demo_female)))
        (symmetries (new_mate_model ProximityMateModel ''peg'' x_only_elem))"
    "symmetries (new_mate_model ProximityMateModel ''peg'' x_only_elem) =
           (case elem_symmetry x_only_elem of
              Some (Some (nx, ny, nz)) \<Rightarrow>
                if 0 < nx \<and> 0 < ny \<and> 0 < nz
                then rot_symmetries (nx, ny, nz) else [FrameIdentity]
            | _ \<Rightarrow> [FrameIdentity])"
    by blast
  have e1: "load_mate_points [demo_female] (demo_atom_model, x_only_loaded)
                = Inr (demo_atom_model\<lparr>female_mate_points := new'\<rparr>,
                       x_only_loaded\<lparr>allocated := length new'\<rparr>)"
    using n'(1) by (simp add: demo_atom_model_def x_only_loaded_models(2))
  have e2: "length new' = 1" using n'(2) by (simp add: g3)
  have e3: "map mp_pose new' = [FrameMul (PoseElem ''0 0 0 0 0 0'') FrameIdentity]"
    using n'(3,4) by (simp add: g3 demo_female_def)
  have A: "\<exists>new. load_mate_points [demo_female] (demo_atom_model, demo_models_loaded)
                = Inr (demo_atom_model\<lparr>female_mate_points := new\<rparr>,
                       demo_models_loaded\<lparr>allocated := length new\<rparr>)
         \<and> length new = 2
         \<and> map mp_pose new =
             [FrameMul (PoseElem ''0 0 0 0 0 0'')
                (Frame (RotMul (RotMul (RotX (Angle 0 2)) (RotY (Angle 0 1))) (RotZ (Angle 0 1)))),
              FrameMul (PoseElem ''0 0 0 0 0 0'')
                (Frame (RotMul (RotMul (RotX (Angle 1 2)) (RotY (Angle 0 1))) (RotZ (Angle 0 1))))]"
    by (intro conjI exI [of _ new]) (rule f1 f2 f3)+
  have B: "\<exists>new. load_mate_points [demo_female] (demo_atom_model, x_only_loaded)
                = Inr (demo_atom_model\<lparr>female_mate_points := new\<rparr>,
                       x_only_loaded\<lparr>allocated := length new\<rparr>)
         \<and> length new = 1
         \<and> map mp_pose new = [FrameMul (PoseElem ''0 0 0 0 0 0'') FrameIdentity]"
    by (intro conjI exI [of _ new']) (rule e1 e2 e3)+
  show ?thesis
    by (intro conjI) (rule h1 h2 g2 A B)+
qed

text \<open>
  C2 as the spec states it fails at that element. With four divisions about the first
  axis and none given for the other two, the spec counts four instances, each axis
  without a number counting as one; the loops over the second and third axis run no
  time, the model gets the identity alone, and the declared female point gets one
  instance, also in the atom model that \<^verbatim>\<open>Load\<close> registers for the scene.
\<close>

theorem unspecified_axis_counterexample:
  "elem_symmetry x_only_elem = Some (Some (4, 0, 0))
   \<and> spec_instances (4, 0, 0) = 4
   \<and> symmetries (new_mate_model ProximityMateModel ''peg'' x_only_elem) = [FrameIdentity]
   \<and> map mp_pose (female_mate_points
        (fst (projr (load_mate_points [demo_female] (demo_atom_model, x_only_loaded)))))
       = [FrameMul (PoseElem ''0 0 0 0 0 0'') FrameIdentity]
   \<and> \<not> isl (Load demo_links x_only_scene AssemblySoup)
   \<and> female_poses (projr (Load demo_links x_only_scene AssemblySoup))
       = [(''part'', [FrameMul (PoseElem ''0 0 0 0 0 0'') FrameIdentity])]"
proof -
  have e: "\<not> isl (Load demo_links x_only_scene AssemblySoup)"
    by code_simp
  have f: "female_poses (projr (Load demo_links x_only_scene AssemblySoup))
       = [(''part'', [FrameMul (PoseElem ''0 0 0 0 0 0'') FrameIdentity])]"
    by code_simp
  have a: "elem_symmetry x_only_elem = Some (Some (4, 0, 0))"
    by (simp add: x_only_elem_def)
  have b: "spec_instances (4, 0, 0) = 4"
    by (simp add: spec_instances_def spec_axis_factor_def)
  have c: "symmetries (new_mate_model ProximityMateModel ''peg'' x_only_elem) = [FrameIdentity]"
    by code_simp
  have d: "map mp_pose (female_mate_points
        (fst (projr (load_mate_points [demo_female] (demo_atom_model, x_only_loaded)))))
       = [FrameMul (PoseElem ''0 0 0 0 0 0'') FrameIdentity]"
    by code_simp
  show ?thesis by (intro conjI) (rule a b c d e f)+
qed

section \<open>One Mate for each pair of mate points\<close>

text \<open>
  C3. In every run of discovery cycles and ticks that starts from a loaded scene, the
  constructor of Mate is called at most once for each pair of a female and a male mate
  point: once when the table has an entry for the pair, never when it has none. The
  lookup of a pair that has an entry returns that Mate and changes nothing, so a cycle
  that scans the pair again uses the Mate that exists. The run returns: no cycle ends
  in an error.
\<close>

theorem at_most_one_mate_per_pair:
  assumes "Load links sdf AssemblySoup = Inr s0"
  shows "\<exists>s. run steps s0 = Inr s
           \<and> count_list (trace s) (E_Mate_ctor (f, m)) \<le> 1
           \<and> count_list (trace s) (E_Mate_ctor (f, m)) = (if deref s (f, m) = None then 0 else 1)
           \<and> (\<forall>mate mm fa fmp ma mmp. deref s (mp_ref fmp, mp_ref mmp) = Some mate
                 \<longrightarrow> find_or_create mm (fa, fmp, ma, mmp) s = (mate, s))"
proof -
  from run_total [OF table_ok_Load [OF assms] atoms_ok_Load [OF assms], of steps]
  obtain s where s: "run steps s0 = Inr s" "table_ok s" by blast
  have "find_or_create mm (fa, fmp, ma, mmp) s = (mate, s)"
    if "deref s (mp_ref fmp, mp_ref mmp) = Some mate" for mate mm fa fmp ma mmp
    using that by (simp add: find_or_create_eq)
  then show ?thesis using s table_okD(1) [OF s(2), of "(f, m)"] by auto
qed

theorem at_most_one_mate_per_pair_witness:
  "Load demo_links demo_scene AssemblySoup = Inr demo_loaded
   \<and> run demo_steps demo_loaded = Inr demo_quiet
   \<and> getStateUpdate_calls (trace demo_quiet) = [(0, 2), (1, 2), (0, 2), (1, 2), (0, 2), (1, 2)]
   \<and> count_list (trace demo_quiet) (E_Mate_ctor (0, 2)) = 1
   \<and> count_list (trace demo_quiet) (E_Mate_ctor (0, 3)) = 0"
proof -
  from at_most_one_mate_per_pair [OF demo_Load, of demo_steps 0 2]
  have a: "count_list (trace demo_quiet) (E_Mate_ctor (0, 2))
             = (if deref demo_quiet (0, 2) = None then 0 else 1)"
    by (auto simp: demo_quiet_run)
  from at_most_one_mate_per_pair [OF demo_Load, of demo_steps 0 3]
  have b: "count_list (trace demo_quiet) (E_Mate_ctor (0, 3)) \<le> 1"
    by (auto simp: demo_quiet_run)
  have t: "getStateUpdate_calls (trace demo_quiet) = [(0, 2), (1, 2), (0, 2), (1, 2), (0, 2), (1, 2)]
      \<and> count_list (trace demo_quiet) (E_Mate_ctor (0, 3)) = 0"
    using demo_quiet_observed by (simp add: observe_def)
  show ?thesis
    using a t demo_quiet_facts(1) demo_Load demo_quiet_run by auto
qed

section \<open>A pending Mate is not evaluated again\<close>

text \<open>
  C4. Let a run from a loaded scene reach a state in which the Mate of a pair has a
  pending state. Then the body of the discovery loop, on that pair, changes nothing:
  it takes no lock, does not call \<^verbatim>\<open>getStateUpdate\<close> and stages nothing. Through
  any number of discovery cycles that follow without a tick, whatever the policy
  answers, the Mate stays as it is and the trace records neither a call of
  \<^verbatim>\<open>getStateUpdate\<close> on it nor a second staging of it.
\<close>

theorem pending_mate_is_skipped:
  assumes "Load links sdf AssemblySoup = Inr s0" and "run steps s0 = Inr s"
    and "deref s p = Some m" and "pending_state m \<noteq> NONE"
    and "run (map Discover gs) s = Inr s'"
  shows "deref s' p = Some m
     \<and> p \<notin> set (getStateUpdate_calls (new_events s s'))
     \<and> p \<notin> set (insert_calls (new_events s s'))
     \<and> (\<forall>gsu fa fmp ma mmp msg. (mp_ref fmp, mp_ref mmp) = p \<and> mp_model fmp \<noteq> None
           \<longrightarrow> scan_pair gsu (fa, fmp, ma, mmp) (s, msg) = Inr (s, msg))"
proof -
  have ok: "table_ok s" by (rule table_ok_run [OF assms(2) table_ok_Load [OF assms(1)]])
  have "scan_pair gsu (fa, fmp, ma, mmp) (s, msg) = Inr (s, msg)"
    if "(mp_ref fmp, mp_ref mmp) = p" "mp_model fmp \<noteq> None" for gsu fa fmp ma mmp msg
  proof (cases "mp_model fmp \<noteq> mp_model mmp")
    case True
    then show ?thesis by (simp add: scan_pair_def)
  next
    case False
    from that(2) obtain mm where mm: "mp_model fmp = Some mm" by auto
    with False have mm': "mp_model mmp = Some mm" by simp
    have d: "deref s (mp_ref fmp, mp_ref mmp) = Some m" using that(1) assms(3) by simp
    have j: "mate_joint m \<noteq> None" using table_okD(3) [OF ok assms(3)] .
    show ?thesis
      using stage_eq [OF d j, of gsu msg] d assms(4)
      by (simp add: scan_pair_def mm mm' find_or_create_eq)
  qed
  with pending_cycles [OF assms(5) ok assms(3,4)] show ?thesis by auto
qed

theorem pending_mate_is_skipped_witness:
  "\<exists>m s'. deref demo_staged (0, 2) = Some m \<and> pending_state m \<noteq> NONE
     \<and> run (map Discover [no_change, request_mate]) demo_staged = Inr s'
     \<and> deref s' (0, 2) = Some m
     \<and> (0, 2) \<notin> set (getStateUpdate_calls (new_events demo_staged s'))
     \<and> (0, 2) \<notin> set (insert_calls (new_events demo_staged s'))"
proof -
  obtain m where m: "deref demo_staged (0, 2) = Some m" "pending_state m \<noteq> NONE"
    using demo_staged_facts(4) by auto
  obtain s' where s': "run (map Discover [no_change, request_mate]) demo_staged = Inr s'"
    using run_total [OF table_ok_demo_staged atoms_ok_demo_staged] by blast
  show ?thesis
    using pending_mate_is_skipped [OF demo_Load demo_staged_run m s'] m s' by blast
qed

section \<open>The tick handler and the lock\<close>

text \<open>
  C5. On a tick the handler tries the lock without waiting. When the lock is not free it
  calls \<^verbatim>\<open>updateState\<close> on no Mate and leaves the staged set and the table as they
  are. When it gets the lock it calls \<^verbatim>\<open>updateState\<close> once on every staged Mate,
  which then holds the result of that call, and empties the staged set. \<open>OnUpdate\<close> is
  a total function of the outcome of the attempt: the handler returns in both cases.
\<close>

theorem tick_try_lock:
  "mates_to_update (OnUpdate False s) = mates_to_update s
   \<and> mate_table (OnUpdate False s) = mate_table s
   \<and> updateState_calls (new_events s (OnUpdate False s)) = []
   \<and> mates_to_update (OnUpdate True s) = []
   \<and> updateState_calls (new_events s (OnUpdate True s))
       = [p\<leftarrow>mates_to_update s. deref s p \<noteq> None]
   \<and> (\<forall>p. deref (OnUpdate True s) p =
        (if p \<in> set (mates_to_update s) then map_option updateState (deref s p)
         else deref s p))"
proof -
  have "mate_table (OnUpdate False s) = mate_table s"
    by (simp add: OnUpdate_def Let_def fold_per_tick_update)
  then show ?thesis
    by (simp add: new_events_def trace_OnUpdate deref_OnUpdate)
qed

theorem tick_try_lock_witness:
  "mates_to_update demo_staged = [(1, 2), (0, 2)]
   \<and> mates_to_update (OnUpdate False demo_staged) = [(1, 2), (0, 2)]
   \<and> updateState_calls (new_events demo_staged (OnUpdate False demo_staged)) = []
   \<and> mates_to_update (OnUpdate True demo_staged) = []
   \<and> updateState_calls (new_events demo_staged (OnUpdate True demo_staged)) = [(1, 2), (0, 2)]
   \<and> map_option state (deref (OnUpdate True demo_staged) (0, 2)) = Some MATED"
proof -
  have b: "[p\<leftarrow>mates_to_update demo_staged. deref demo_staged p \<noteq> None] = [(1, 2), (0, 2)]"
    using demo_staged_facts by auto
  have c: "map_option state (map_option updateState (deref demo_staged (0, 2))) = Some MATED"
    using demo_staged_facts(4) by (auto simp: updateState_def)
  show ?thesis
    using tick_try_lock [of demo_staged] demo_staged_facts(1) b c by simp
qed

section \<open>The lock in the discovery cycle\<close>

text \<open>
  C6, as the code has it. In a discovery cycle from a state that a run from a loaded
  scene reaches, the thread takes the mutex once in every pass through the loop body
  that evaluates a pair, and in no other pass. Every pass of the cycle is reached and
  returns, and its events are those of \<open>body_events\<close>: none for an incompatible pair
  and none for a pair whose Mate has a pending state, so that such a pass takes no lock;
  for a compatible pair whose Mate has no pending state, after the construction of the
  Mate if the table has none, the mutex is taken, \<^verbatim>\<open>getStateUpdate\<close> is called
  with the mutex held, the Mate is staged if the call asks for a state, and the mutex is
  released where the pass ends. The events of the cycle are those of its passes, one
  after the other, and then the publication if it is enabled. So the mutex is taken
  once for every call of \<^verbatim>\<open>getStateUpdate\<close> and not only for the transitions that
  are staged, every call and every insertion into the staged set is made with the mutex
  held, and the mutex is free when the cycle ends.
\<close>

theorem lock_taken_for_each_evaluation:
  assumes "Load links sdf AssemblySoup = Inr s0" and "run steps s0 = Inr s"
    and "getStateUpdates gsu s = Inr s'"
  shows "lock_discipline False (new_events s s') = Some False
     \<and> count_list (new_events s s') E_lock = length (getStateUpdate_calls (new_events s s'))
     \<and> length (insert_calls (new_events s s')) \<le> count_list (new_events s s') E_lock
     \<and> (\<exists>t msg. fold_err (scan_pair gsu) (candidates (atoms s)) (s, [], []) = Inr (t, msg)
           \<and> new_events s t = concat (bodies_events gsu (candidates (atoms s)) (s, [], []))
           \<and> new_events s s' = new_events s t
               @ (if publish_active_mates s then [E_publish (fst msg) (snd msg)] else []))
     \<and> (\<forall>pre c post. candidates (atoms s) = pre @ c # post \<longrightarrow>
          (\<exists>t msg t' msg'. fold_err (scan_pair gsu) pre (s, [], []) = Inr (t, msg)
             \<and> scan_pair gsu c (t, msg) = Inr (t', msg')
             \<and> new_events t t' = body_events gsu c t))"
proof -
  have ok: "table_ok s" by (rule table_ok_run [OF assms(2) table_ok_Load [OF assms(1)]])
  have a: "lock_discipline False (new_events s s') = Some False
     \<and> count_list (new_events s s') E_lock = length (getStateUpdate_calls (new_events s s'))
     \<and> length (insert_calls (new_events s s')) \<le> count_list (new_events s s') E_lock"
    using locking_cycle [OF assms(3) ok] by auto
  have b: "\<exists>t msg. fold_err (scan_pair gsu) (candidates (atoms s)) (s, [], []) = Inr (t, msg)
           \<and> new_events s t = concat (bodies_events gsu (candidates (atoms s)) (s, [], []))
           \<and> new_events s s' = new_events s t
               @ (if publish_active_mates s then [E_publish (fst msg) (snd msg)] else [])"
    by (rule bodies_of_cycle [OF assms(3) ok])
  have c: "\<exists>t msg t' msg'. fold_err (scan_pair gsu) pre (s, [], []) = Inr (t, msg)
             \<and> scan_pair gsu c (t, msg) = Inr (t', msg')
             \<and> new_events t t' = body_events gsu c t"
    if split: "candidates (atoms s) = pre @ c # post" for pre c post
  proof -
    from b obtain sm' where
      "fold_err (scan_pair gsu) (candidates (atoms s)) (s, [], []) = Inr sm'" by blast
    then have "fold_err (scan_pair gsu) (pre @ c # post) (s, [], []) = Inr sm'"
      by (simp only: split)
    then show ?thesis by (rule body_of_cycle [OF _ ok])
  qed
  from a b c show ?thesis by blast
qed

text \<open>
  The theorem at the first cycle of the small scene. Its four passes are for the two
  female instances of the first part against the male point of the second and for the
  same two mate points, the parts exchanged: the first two passes construct a Mate,
  take the mutex, evaluate and stage; the last two find those Mates pending and take no
  lock.
\<close>

theorem lock_taken_for_each_evaluation_witness:
  "Load demo_links demo_scene AssemblySoup = Inr demo_loaded
   \<and> run [Tick True] demo_loaded = Inr demo_ticked
   \<and> getStateUpdates request_mate demo_ticked = Inr demo_staged
   \<and> lock_discipline False (new_events demo_ticked demo_staged) = Some False
   \<and> count_list (new_events demo_ticked demo_staged) E_lock = 2
   \<and> getStateUpdate_calls (new_events demo_ticked demo_staged) = [(0, 2), (1, 2)]
   \<and> insert_calls (new_events demo_ticked demo_staged) = [(0, 2), (1, 2)]
   \<and> bodies_events request_mate (candidates (atoms demo_ticked)) (demo_ticked, [], []) =
       [[E_Mate_ctor (0, 2), E_CreateJoint (0, 2), E_JointLoad (0, 2), E_JointInit (0, 2),
         E_JointDetach (0, 2), E_lock, E_getStateUpdate (0, 2), E_insert (0, 2), E_unlock],
        [E_Mate_ctor (1, 2), E_CreateJoint (1, 2), E_JointLoad (1, 2), E_JointInit (1, 2),
         E_JointDetach (1, 2), E_lock, E_getStateUpdate (1, 2), E_insert (1, 2), E_unlock],
        [], []]
   \<and> new_events demo_ticked demo_staged =
       concat (bodies_events request_mate (candidates (atoms demo_ticked)) (demo_ticked, [], []))
         @ [E_publish [''part_1'', ''part_1''] [''part_2'', ''part_2'']]"
proof -
  note t = lock_taken_for_each_evaluation [OF demo_Load demo_ticked_run demo_cycle]
  have bodies:
    "bodies_events request_mate (candidates (atoms demo_ticked)) (demo_ticked, [], []) =
       [[E_Mate_ctor (0, 2), E_CreateJoint (0, 2), E_JointLoad (0, 2), E_JointInit (0, 2),
         E_JointDetach (0, 2), E_lock, E_getStateUpdate (0, 2), E_insert (0, 2), E_unlock],
        [E_Mate_ctor (1, 2), E_CreateJoint (1, 2), E_JointLoad (1, 2), E_JointInit (1, 2),
         E_JointDetach (1, 2), E_lock, E_getStateUpdate (1, 2), E_insert (1, 2), E_unlock],
        [], []]"
    by code_simp
  from t obtain u msg where
    u: "new_events demo_ticked u =
          concat (bodies_events request_mate (candidates (atoms demo_ticked)) (demo_ticked, [], []))"
    and v: "new_events demo_ticked demo_staged = new_events demo_ticked u
               @ (if publish_active_mates demo_ticked then [E_publish (fst msg) (snd msg)] else [])"
    by blast
  have pub: "publish_active_mates demo_ticked"
    using demo_ticked_observed by (simp add: observe_def)
  have "E_publish (fst msg) (snd msg) = E_publish [''part_1'', ''part_1''] [''part_2'', ''part_2'']"
    using v by (simp add: pub u bodies demo_staged_events)
  then have events: "new_events demo_ticked demo_staged =
       concat (bodies_events request_mate (candidates (atoms demo_ticked)) (demo_ticked, [], []))
         @ [E_publish [''part_1'', ''part_1''] [''part_2'', ''part_2'']]"
    using v by (simp only: pub u if_True)
  have l: "lock_discipline False (new_events demo_ticked demo_staged) = Some False"
    using t by blast
  have n: "count_list (new_events demo_ticked demo_staged) E_lock = 2"
    "getStateUpdate_calls (new_events demo_ticked demo_staged) = [(0, 2), (1, 2)]"
    "insert_calls (new_events demo_ticked demo_staged) = [(0, 2), (1, 2)]"
    by (simp_all add: demo_staged_events)
  show ?thesis
    by (intro conjI) (rule demo_Load demo_ticked_run demo_cycle l n bodies events)+
qed

text \<open>
  C6 as the spec states it fails on the later cycle of the small scene, in which both
  Mates are mated and nothing is pending. No transition is staged in it, yet the thread
  takes the mutex four times, once for each pair it evaluates, and its first call of
  \<^verbatim>\<open>getStateUpdate\<close> is made with the mutex held.
\<close>

theorem lock_only_for_staging_counterexample:
  "spec_lock_discipline False (new_events demo_mated demo_quiet) = None
   \<and> insert_calls (new_events demo_mated demo_quiet) = []
   \<and> count_list (new_events demo_mated demo_quiet) E_lock = 4
   \<and> take 3 (new_events demo_mated demo_quiet) = [E_lock, E_getStateUpdate (0, 2), E_unlock]"
  by (simp add: demo_quiet_events)

section \<open>The joint of a Mate\<close>

text \<open>
  C7. The constructor of Mate leaves the Mate with a joint that is detached. In every run
  that starts from a loaded scene, a joint is created at most once for each pair, as
  often as the Mate of the pair is constructed, and every Mate that the table holds has
  its joint: the trace records exactly one creation of it.
\<close>

theorem joint_constructed_once:
  assumes "Load links sdf AssemblySoup = Inr s0"
  shows "(\<exists>j. mate_joint (Mate_ctor mm fmp mmp fa ma) = Some j \<and> \<not> attached j)
     \<and> (\<exists>s. run steps s0 = Inr s
           \<and> count_list (trace s) (E_CreateJoint p) \<le> 1
           \<and> count_list (trace s) (E_CreateJoint p) = count_list (trace s) (E_Mate_ctor p)
           \<and> (\<forall>mate. deref s p = Some mate \<longrightarrow>
                 mate_joint mate \<noteq> None \<and> count_list (trace s) (E_CreateJoint p) = 1))"
proof -
  from run_total [OF table_ok_Load [OF assms] atoms_ok_Load [OF assms], of steps]
  obtain s where s: "run steps s0 = Inr s" "table_ok s" by blast
  then show ?thesis using table_okD [OF s(2), of p] by auto
qed

theorem joint_constructed_once_witness:
  "Load demo_links demo_scene AssemblySoup = Inr demo_loaded
   \<and> run demo_steps demo_loaded = Inr demo_quiet
   \<and> (\<exists>mate. deref demo_quiet (1, 2) = Some mate \<and> mate_joint mate \<noteq> None)
   \<and> count_list (trace demo_quiet) (E_CreateJoint (1, 2)) = 1"
proof -
  from joint_constructed_once [OF demo_Load, of _ _ _ _ _ demo_steps "(1, 2)"]
  have "\<forall>mate. deref demo_quiet (1, 2) = Some mate \<longrightarrow>
          mate_joint mate \<noteq> None \<and> count_list (trace demo_quiet) (E_CreateJoint (1, 2)) = 1"
    by (auto simp: demo_quiet_run)
  then show ?thesis
    using demo_quiet_facts(2) demo_Load demo_quiet_run by auto
qed

section \<open>The published list of mates\<close>


section \<open>Mate model elements that end the loading\<close>

text \<open>
  C9, as the code has it. Let the loop over the mate model elements reach an element
  that lacks the model attribute, or lacks the type attribute, or whose type is not
  registered yet and whose model is neither \<^verbatim>\<open>proximity\<close> nor \<^verbatim>\<open>dipole\<close>. Then
  \<^verbatim>\<open>Load\<close> logs an error and returns there: the mate models registered before stay,
  no further mate model, no atom model and no atom is registered, and the plugin is not
  connected to the update event. An element whose type is registered already is passed
  over before its model is looked at.
\<close>

theorem invalid_mate_model_aborts_load:
  assumes "elem_mate_models sdf = pre @ e # post"
    and "load_mate_models pre (configure sdf s) = Continue s1"
    and "aborts e s1"
  shows "\<exists>msg. Load links sdf s = Inr (emit [E_gzerr msg] s1)
           \<and> mate_models (emit [E_gzerr msg] s1) = mate_models s1
           \<and> atom_models (emit [E_gzerr msg] s1) = atom_models s
           \<and> atoms (emit [E_gzerr msg] s1) = atoms s
           \<and> updateConnection (emit [E_gzerr msg] s1) = updateConnection s
           \<and> E_ConnectWorldUpdateBegin \<notin> set (new_events s (emit [E_gzerr msg] s1))"
proof -
  from load_mate_models_aborts [OF assms(3)] obtain msg where
    m: "load_mate_models (e # post) s1 = Return (emit [E_gzerr msg] s1)" by blast
  have "load_mate_models (elem_mate_models sdf) (configure sdf s) = Return (emit [E_gzerr msg] s1)"
    unfolding assms(1) load_mate_models_append assms(2) using m by simp
  then have L: "Load links sdf s = Inr (emit [E_gzerr msg] s1)"
    by (simp add: Load_def)
  have k: "atom_models s1 = atom_models s \<and> atoms s1 = atoms s
      \<and> updateConnection s1 = updateConnection s"
    using kept_load_mate_models [of "configure sdf s" pre] assms(2) kept_configure [of sdf s]
    by (simp add: kept_def)
  have "trace (configure sdf s) = trace s"
    by (simp add: configure_def Let_def split: option.splits)
  with gzerr_only_load_mate_models [of pre "configure sdf s"] assms(2)
  obtain es where es: "trace s1 = trace s @ es" "E_ConnectWorldUpdateBegin \<notin> set es"
    by auto
  with L k show ?thesis by (auto simp: new_events_def)
qed

theorem invalid_mate_model_aborts_load_witness:
  "elem_mate_models (demo_scene_with (bogus_elem ''hook''))
     = elem_mate_models demo_scene @ bogus_elem ''hook'' # []
   \<and> aborts (bogus_elem ''hook'') demo_models_loaded
   \<and> (\<exists>msg. Load demo_links (demo_scene_with (bogus_elem ''hook'')) AssemblySoup
                = Inr (emit [E_gzerr msg] demo_models_loaded)
         \<and> map fst (mate_models (emit [E_gzerr msg] demo_models_loaded)) = [''peg'']
         \<and> atom_models (emit [E_gzerr msg] demo_models_loaded) = []
         \<and> atoms (emit [E_gzerr msg] demo_models_loaded) = []
         \<and> \<not> updateConnection (emit [E_gzerr msg] demo_models_loaded))"
proof -
  have a: "elem_mate_models (demo_scene_with (bogus_elem ''hook''))
     = elem_mate_models demo_scene @ bogus_elem ''hook'' # []"
    by (simp add: demo_scene_with_def)
  have b: "load_mate_models (elem_mate_models demo_scene)
             (configure (demo_scene_with (bogus_elem ''hook'')) AssemblySoup)
           = Continue demo_models_loaded"
    by (simp add: demo_models_loaded_def demo_scene_def demo_scene_with_def configure_def
          AssemblySoup_def Let_def)
  have m: "map fst (mate_models demo_models_loaded) = [''peg'']"
    by (simp add: demo_models_loaded_def demo_scene_def demo_scene_with_def configure_def
          AssemblySoup_def Let_def new_mate_model_def)
  then have c: "aborts (bogus_elem ''hook'') demo_models_loaded"
    by (auto simp: aborts_def bogus_elem_def map_of_eq_None_iff)
  show ?thesis
    using invalid_mate_model_aborts_load [OF a b c, of demo_links] a c m
    by (auto simp: AssemblySoup_def)
qed

text \<open>
  C9 as the spec states it fails when the type of the element is registered already:
  the model \<^verbatim>\<open>bogus\<close> of the second element is not looked at, and loading runs to
  its end, with the atom model, the two atoms and the connection to the update event.
\<close>

theorem invalid_model_name_counterexample:
  "attr_model (bogus_elem ''peg'') = Some ''bogus''
   \<and> load_outcome (Load demo_links (demo_scene_with (bogus_elem ''peg'')) AssemblySoup)
       = Some (True, [''peg''], [''part''], [''part_1'', ''part_2''],
               [E_gzerr ''Unknown gender: neuter'', E_ConnectWorldUpdateBegin])"
proof -
  have "load_outcome (Load demo_links (demo_scene_with (bogus_elem ''peg'')) AssemblySoup)
       = Some (True, [''peg''], [''part''], [''part_1'', ''part_2''],
               [E_gzerr ''Unknown gender: neuter'', E_ConnectWorldUpdateBegin])"
    by code_simp
  then show ?thesis by (simp add: bogus_elem_def)
qed

section \<open>A mate point of unknown gender\<close>

text \<open>
  C10. A declared mate point whose gender equals neither \<^verbatim>\<open>female\<close> nor
  \<^verbatim>\<open>male\<close>, whatever the case of its letters, adds no mate point to the atom model
  and allocates none; the loop logs the error and goes on with the mate points that
  follow, from the same atom model.
\<close>

theorem unknown_gender_adds_no_mate_point:
  assumes "\<not> iequals (mpe_gender e) ''female''" and "\<not> iequals (mpe_gender e) ''male''"
  shows "load_mate_points (e # es) (am, s) =
           load_mate_points es
             (am, emit [E_gzerr (''Unknown gender: '' @ mpe_gender e)]
                    (snd (mate_models_at (mpe_type e) s)))
     \<and> allocated (emit [E_gzerr (''Unknown gender: '' @ mpe_gender e)]
                    (snd (mate_models_at (mpe_type e) s))) = allocated s
     \<and> trace (emit [E_gzerr (''Unknown gender: '' @ mpe_gender e)]
                    (snd (mate_models_at (mpe_type e) s)))
         = trace s @ [E_gzerr (''Unknown gender: '' @ mpe_gender e)]"
  using assms mate_models_at_allocated [of "mpe_type e" s]
  by (cases "mate_models_at (mpe_type e) s") simp

theorem unknown_gender_adds_no_mate_point_witness:
  "\<not> iequals (mpe_gender demo_neuter) ''female''
   \<and> \<not> iequals (mpe_gender demo_neuter) ''male''
   \<and> load_mate_points [demo_neuter, demo_female] (demo_atom_model, demo_models_loaded)
       = load_mate_points [demo_female]
           (demo_atom_model, emit [E_gzerr ''Unknown gender: neuter''] demo_models_loaded)
   \<and> load_mate_points [demo_neuter] (demo_atom_model, demo_models_loaded)
       = Inr (demo_atom_model, emit [E_gzerr ''Unknown gender: neuter''] demo_models_loaded)
   \<and> Load demo_links demo_scene AssemblySoup = Inr demo_loaded
   \<and> trace demo_loaded = [E_gzerr ''Unknown gender: neuter'', E_ConnectWorldUpdateBegin]"
proof -
  have t: "trace demo_loaded = [E_gzerr ''Unknown gender: neuter'', E_ConnectWorldUpdateBegin]"
    using demo_loaded_observed by (simp add: observe_def)
  have h1: "\<not> iequals (mpe_gender demo_neuter) ''female''"
    by (simp add: demo_neuter_def iequals_def toupper_def)
  have h2: "\<not> iequals (mpe_gender demo_neuter) ''male''"
    by (simp add: demo_neuter_def iequals_def toupper_def)
  have at: "snd (mate_models_at (mpe_type demo_neuter) demo_models_loaded) = demo_models_loaded"
    by (simp add: mate_models_at_def demo_models_loaded_models demo_neuter_def)
  have g: "mpe_gender demo_neuter = ''neuter''" by (simp add: demo_neuter_def)
  show ?thesis
    using unknown_gender_adds_no_mate_point [OF h1 h2, of "[demo_female]" demo_atom_model demo_models_loaded]
      unknown_gender_adds_no_mate_point [OF h1 h2, of "[]" demo_atom_model demo_models_loaded]
      h1 h2 t demo_Load
    by (simp add: at g)
qed

end
